theory Spec2Isabelle
  imports Main "HOL-Library.Multiset"
begin

section \<open>Python values and errors\<close>

text \<open>
  A sequence is a list of token ids.  Every exception that the batching code
  of \<^verbatim>\<open>njunmt/data/text_inputter.py\<close> can raise is a value of \<open>py_error\<close>;
  a function that may raise returns \<open>py_error + 'a\<close> with \<open>Inl\<close> for the exception.
\<close>

type_synonym seq = "int list"

datatype py_error = ValueError | ZeroDivisionError | KeyError | IndexError | AssertionError

text \<open>Python's truth value of an optional string: \<open>None\<close> and \<open>""\<close> are false.\<close>

definition truthy :: "string option \<Rightarrow> bool" where
  "truthy s = (case s of None \<Rightarrow> False | Some t \<Rightarrow> t \<noteq> [])"

text \<open>
  Slicing and indexing with Python integers.  \<open>py_norm n i\<close> is the position in
  \<open>0..n\<close> that a slice bound \<open>i\<close> denotes on a list of length \<open>n\<close>: a negative
  bound counts from the end, and every bound is clamped to the list.
\<close>

definition py_norm :: "nat \<Rightarrow> int \<Rightarrow> nat" where
  "py_norm n i = (if i < 0 then nat (max 0 (int n + i)) else min n (nat i))"

definition py_slice :: "'a list \<Rightarrow> int \<Rightarrow> int \<Rightarrow> 'a list" where
  \<comment> \<open>\<^verbatim>\<open>xs[a:b]\<close>\<close>
  "py_slice xs a b =
     (let lo = py_norm (length xs) a; hi = py_norm (length xs) b
      in take (hi - lo) (drop lo xs))"

definition py_take :: "'a list \<Rightarrow> int \<Rightarrow> 'a list" where
  \<comment> \<open>\<^verbatim>\<open>xs[:b]\<close>\<close>
  "py_take xs b = take (py_norm (length xs) b) xs"

definition py_del_prefix :: "'a list \<Rightarrow> int \<Rightarrow> 'a list" where
  \<comment> \<open>the list left by \<^verbatim>\<open>del xs[:b]\<close>\<close>
  "py_del_prefix xs b = drop (py_norm (length xs) b) xs"

definition py_index :: "'a list \<Rightarrow> int \<Rightarrow> py_error + 'a" where
  \<comment> \<open>\<^verbatim>\<open>xs[i]\<close>: a negative index counts from the end\<close>
  "py_index xs i =
     (if 0 \<le> i \<and> i < int (length xs) then Inr (xs ! nat i)
      else if i < 0 \<and> - int (length xs) \<le> i then Inr (xs ! nat (int (length xs) + i))
      else Inl IndexError)"

text \<open>
  \<^verbatim>\<open>[xs[i] for i in idx]\<close>: one out-of-range index raises \<open>IndexError\<close>.
  The indices are the non-negative ones an index array of \<^verbatim>\<open>argsort\<close> or of a
  reader's shuffle holds.
\<close>

definition gather :: "'a list \<Rightarrow> nat list \<Rightarrow> py_error + 'a list" where
  "gather xs idx =
     (if \<forall>i \<in> set idx. i < length xs then Inr (map (\<lambda>i. xs ! i) idx) else Inl IndexError)"

section \<open>Names\<close>

text \<open>
  \<^verbatim>\<open>njunmt/utils/constants.py\<close> is not part of the sources at hand.  The two name
  prefixes and the two field names it declares are the constructors below, and
  \<^verbatim>\<open>concat_name(prefix, field)\<close> is the pair of the two, so that different
  arguments give different keys.
\<close>

datatype name_prefix = FEATURE_NAME_PREFIX | LABEL_NAME_PREFIX

datatype field_name = IDS_NAME | LENGTH_NAME

type_synonym key = "name_prefix \<times> field_name"

definition concat_name :: "name_prefix \<Rightarrow> field_name \<Rightarrow> key" where
  "concat_name n f = (n, f)"

section \<open>The batch assembler \<^verbatim>\<open>pack_feed_dict\<close>\<close>

text \<open>
  The dictionary \<^verbatim>\<open>data\<close> that \<^verbatim>\<open>pack_feed_dict\<close> builds: the entries
  \<^verbatim>\<open>data[concat_name(n, IDS_NAME)]\<close> are the field \<open>ids\<close>; the dictionary
  \<^verbatim>\<open>data["feed_dict"]\<close> is the pair of \<open>feeds\<close>, its entries keyed by a
  placeholder, and \<open>parallels\<close>, its entry \<^verbatim>\<open>"parallels"\<close> (\<open>None\<close> when the
  key is absent).
\<close>

datatype feed_value = Padded "seq list" | Lengths "nat list"

record 'ph data =
  ids :: "key \<rightharpoonup> seq list"
  feeds :: "'ph \<rightharpoonup> feed_value"
  parallels :: "nat list option"

definition empty_data :: "'ph data" where
  "empty_data = \<lparr>ids = Map.empty, feeds = Map.empty, parallels = None\<rparr>"

text \<open>
  Modelled from the spec: \<^verbatim>\<open>padding_batch_data\<close> of \<^verbatim>\<open>njunmt/utils/misc.py\<close>,
  which is not part of the sources at hand.  Every sequence is padded on the right
  with the padding id up to the longest sequence of the batch, and the true
  lengths are returned beside the padded rows.
\<close>

definition padding_batch_data :: "seq list \<Rightarrow> int \<Rightarrow> seq list \<times> nat list" where
  "padding_batch_data d p =
     (let lens = map length d; m = fold max lens 0
      in (map (\<lambda>s. s @ replicate (m - length s) p) d, lens))"

text \<open>
  Modelled from the spec: \<^verbatim>\<open>repeat_n_times\<close> of \<^verbatim>\<open>njunmt/utils/expert_utils.py\<close>,
  which is not part of the sources at hand.  It calls \<open>fn\<close> once per device slot,
  in slot order, on the slot's entry of each argument list, and returns the list
  of the results.  The calls write to the dictionary under construction, which is
  threaded through them; the first exception ends the loop.
\<close>

fun repeat_loop ::
  "('a \<Rightarrow> 'b \<Rightarrow> 's \<Rightarrow> py_error + (nat \<times> 's)) \<Rightarrow> ('a \<times> 'b) list \<Rightarrow> 's \<Rightarrow> py_error + (nat list \<times> 's)"
where
  "repeat_loop fn [] s = Inr ([], s)"
| "repeat_loop fn ((a, b) # rest) s =
     (case fn a b s of
        Inl e \<Rightarrow> Inl e
      | Inr (c, s') \<Rightarrow>
          (case repeat_loop fn rest s' of
             Inl e \<Rightarrow> Inl e
           | Inr (cs, s'') \<Rightarrow> Inr (c # cs, s'')))"

definition repeat_n_times ::
  "nat \<Rightarrow> ('a \<Rightarrow> 'b \<Rightarrow> 's \<Rightarrow> py_error + (nat \<times> 's)) \<Rightarrow> 'a list \<Rightarrow> 'b list \<Rightarrow> 's
     \<Rightarrow> py_error + (nat list \<times> 's)"
where
  "repeat_n_times n fn xs ys s = repeat_loop fn (take n (zip xs ys)) s"

text \<open>
  \<^verbatim>\<open>n_samples_per_gpu\<close>: the quotient of the batch size by the number of device
  slots, plus one when the division leaves a remainder.
\<close>

definition n_samples_per_gpu :: "nat \<Rightarrow> nat \<Rightarrow> nat" where
  "n_samples_per_gpu n_samples n_devices =
     (if n_samples mod n_devices > 0 then n_samples div n_devices + 1
      else n_samples div n_devices)"

text \<open>
  The inner function \<^verbatim>\<open>_feed_batchs\<close>: a slot whose block starts at or past the
  end of the batch returns 0 and writes nothing; any other slot pads its block,
  stores the padded rows and the lengths under the slot's two placeholders and
  returns the number of sequences of the block.
\<close>

definition feed_batchs ::
  "name_prefix \<Rightarrow> seq list \<Rightarrow> int \<Rightarrow> nat \<Rightarrow> nat \<Rightarrow> (key \<rightharpoonup> 'ph) \<Rightarrow> 'ph data
     \<Rightarrow> py_error + (nat \<times> 'ph data)"
where
  "feed_batchs n d p per start_idx inpf dat =
     (if start_idx * per \<ge> length d then Inr (0, dat)
      else
        let (x, x_len) =
              padding_batch_data (take ((start_idx + 1) * per - start_idx * per) (drop (start_idx * per) d)) p
        in (case inpf (concat_name n IDS_NAME) of
              None \<Rightarrow> Inl KeyError
            | Some ph_ids \<Rightarrow>
                (case inpf (concat_name n LENGTH_NAME) of
                   None \<Rightarrow> Inl KeyError
                 | Some ph_len \<Rightarrow>
                     Inr (length x_len,
                          dat\<lparr>feeds := ((feeds dat)(ph_ids \<mapsto> Padded x))(ph_len \<mapsto> Lengths x_len)\<rparr>))))"

text \<open>The inner function \<^verbatim>\<open>map_fn\<close> for one component of the batch.\<close>

definition map_fn ::
  "(key \<rightharpoonup> 'ph) list \<Rightarrow> name_prefix \<Rightarrow> seq list \<Rightarrow> int \<Rightarrow> 'ph data \<Rightarrow> py_error + 'ph data"
where
  "map_fn input_fields n d p dat =
     (let dat1 = dat\<lparr>ids := (ids dat)(concat_name n IDS_NAME \<mapsto> d)\<rparr>;
          n_samples = length d;
          n_devices = length input_fields
      in if n_devices = 0 then Inl ZeroDivisionError
         else
           (case repeat_n_times n_devices
                   (feed_batchs n d p (n_samples_per_gpu n_samples n_devices))
                   [0..<n_devices] input_fields dat1 of
              Inl e \<Rightarrow> Inl e
            | Inr (counts, dat2) \<Rightarrow> Inr (dat2\<lparr>parallels := Some counts\<rparr>)))"

text \<open>
  \<^verbatim>\<open>pack_feed_dict\<close> takes one component (a name prefix, its sequences, its
  padding id) or a list of each; the lists are zipped.
\<close>

datatype components =
  Single name_prefix "seq list" int
| Several "name_prefix list" "seq list list" "int list"

fun map_fns ::
  "(key \<rightharpoonup> 'ph) list \<Rightarrow> (name_prefix \<times> seq list \<times> int) list \<Rightarrow> 'ph data \<Rightarrow> py_error + 'ph data"
where
  "map_fns input_fields [] dat = Inr dat"
| "map_fns input_fields ((n, d, p) # rest) dat =
     (case map_fn input_fields n d p dat of
        Inl e \<Rightarrow> Inl e
      | Inr dat' \<Rightarrow> map_fns input_fields rest dat')"

fun pack_feed_dict :: "components \<Rightarrow> (key \<rightharpoonup> 'ph) list \<Rightarrow> py_error + 'ph data" where
  "pack_feed_dict (Single n d p) input_fields = map_fn input_fields n d p empty_data"
| "pack_feed_dict (Several ns ds ps) input_fields =
     map_fns input_fields (zip ns (zip ds ps)) empty_data"

section \<open>Line readers\<close>

text \<open>
  Modelled from the spec: the class \<^verbatim>\<open>LineReader\<close> of \<^verbatim>\<open>njunmt/data/data_reader.py\<close>,
  which is not part of the sources at hand.  A reader holds the lines of its
  corpus in their current arrangement (\<open>None\<close> for a malformed line) and a
  cursor.  \<^verbatim>\<open>next()\<close> returns the end sentinel \<^verbatim>\<open>""\<close> at the end of the stream,
  \<^verbatim>\<open>None\<close> for a line to skip, and the sequence of the line otherwise.
  \<^verbatim>\<open>reset(do_shuffle, shuffle_to_file, argsort_index)\<close> puts the cursor back to
  the start, rearranges the lines when asked to shuffle, by the index list given
  or else by one of its own choice, and returns the index list used.  The index
  lists a reader chooses by itself on its successive shuffles are the field
  \<open>draws\<close>; \<open>resets\<close> counts the calls of \<^verbatim>\<open>reset\<close>.  The name of the file
  that a shuffle writes to has no part in the model.
\<close>

datatype item = Eos | Skip | Seq seq

record reader =
  source :: "seq option list"
  cursor :: nat
  closed :: bool
  resets :: nat
  draws :: "nat list list"

definition reader_next :: "reader \<Rightarrow> item \<times> reader" where
  "reader_next r =
     (if cursor r < length (source r)
      then (case source r ! cursor r of None \<Rightarrow> Skip | Some s \<Rightarrow> Seq s, r\<lparr>cursor := Suc (cursor r)\<rparr>)
      else (Eos, r))"

definition reader_close :: "reader \<Rightarrow> reader" where
  "reader_close r = r\<lparr>closed := True\<rparr>"

definition reader_reset :: "bool \<Rightarrow> nat list option \<Rightarrow> reader \<Rightarrow> py_error + (nat list option \<times> reader)" where
  "reader_reset do_shuffle argsort_index r =
     (let r0 = r\<lparr>cursor := 0, resets := Suc (resets r)\<rparr>
      in if \<not> do_shuffle then Inr (argsort_index, r0)
         else
           let (idx, rest) =
                 (case argsort_index of
                    Some given \<Rightarrow> (given, draws r)
                  | None \<Rightarrow>
                      (case draws r of
                         [] \<Rightarrow> ([0..<length (source r)], [])
                       | own # later \<Rightarrow> (own, later)))
           in (case gather (source r) idx of
                 Inl e \<Rightarrow> Inl e
               | Inr arranged \<Rightarrow> Inr (Some idx, r0\<lparr>source := arranged, draws := rest\<rparr>)))"

section \<open>The single-corpus batcher \<^verbatim>\<open>TextLineInputter\<close>\<close>

record text_line_inputter =
  tl_batch_size :: int
  tl_padding_id :: int

definition TextLineInputter_init :: "int \<Rightarrow> int option \<Rightarrow> py_error + text_line_inputter" where
  "TextLineInputter_init padding_id batch_size =
     (case batch_size of
        None \<Rightarrow> Inl ValueError
      | Some b \<Rightarrow> Inr \<lparr>tl_batch_size = b, tl_padding_id = padding_id\<rparr>)"

text \<open>The first loop of \<^verbatim>\<open>_make_feeding_data_from\<close>: it reads until the end sentinel.\<close>

function drain :: "reader \<Rightarrow> seq list \<Rightarrow> reader \<times> seq list" where
  "drain r ss_buf =
     (case reader_next r of
        (Eos, r') \<Rightarrow> (r', ss_buf)
      | (Skip, r') \<Rightarrow> drain r' ss_buf
      | (Seq s, r') \<Rightarrow> drain r' (ss_buf @ [s]))"
  by pat_completeness auto
termination
  by (relation "measure (\<lambda>(r, b). length (source r) - cursor r)")
     (auto simp: reader_next_def split: if_splits)

declare drain.simps [simp del]

text \<open>
  The second loop of \<^verbatim>\<open>_make_feeding_data_from\<close>: the index advances by
  \<^verbatim>\<open>batch_size\<close>, so the loop need not end; \<open>None\<close> is the loop that runs forever.
\<close>

partial_function (option) batch_loop ::
  "(seq list \<Rightarrow> py_error + 'b) \<Rightarrow> seq list \<Rightarrow> int \<Rightarrow> int \<Rightarrow> 'b list \<Rightarrow> (py_error + 'b list) option"
where
  "batch_loop pack ss_buf bsize batch_data_idx dat =
     (if batch_data_idx < int (length ss_buf)
      then (case pack (py_slice ss_buf batch_data_idx (batch_data_idx + bsize)) of
              Inl e \<Rightarrow> Some (Inl e)
            | Inr b \<Rightarrow> batch_loop pack ss_buf bsize (batch_data_idx + bsize) (dat @ [b]))
      else Some (Inr dat))"

declare batch_loop.simps [code]

definition make_feeding_data_from ::
  "text_line_inputter \<Rightarrow> reader \<Rightarrow> (key \<rightharpoonup> 'ph) list \<Rightarrow> name_prefix
     \<Rightarrow> (reader \<times> (py_error + 'ph data list)) option"
where
  "make_feeding_data_from self rd input_fields name_prefix =
     (let (r, ss_buf) = drain rd [];
          r' = reader_close r
      in map_option (Pair r')
           (batch_loop
              (\<lambda>chunk. pack_feed_dict (Single name_prefix chunk (tl_padding_id self)) input_fields)
              ss_buf (tl_batch_size self) 0 []))"

section \<open>The bucketing sorter \<^verbatim>\<open>do_bucketing\<close>\<close>

text \<open>
  \<^verbatim>\<open>numpy\<close> is a library outside the repository: the function that
  \<^verbatim>\<open>tlen.argsort()\<close> computes is the parameter \<open>argsort\<close>, from a list of keys
  to a list of positions.
\<close>

fun gather_each :: "'b list list \<Rightarrow> nat list \<Rightarrow> py_error + 'b list list" where
  "gather_each [] tidx = Inr []"
| "gather_each (ele # rest) tidx =
     (case gather ele tidx of
        Inl e \<Rightarrow> Inl e
      | Inr g \<Rightarrow> (case gather_each rest tidx of Inl e \<Rightarrow> Inl e | Inr gs \<Rightarrow> Inr (g # gs)))"

definition do_bucketing ::
  "(nat list \<Rightarrow> nat list) \<Rightarrow> 'a list list \<Rightarrow> 'b list list \<Rightarrow> py_error + ('a list list \<times> 'b list list)"
where
  "do_bucketing argsort pivot args =
     (let tlen = map length pivot;
          tidx = argsort tlen
      in (case gather pivot tidx of
            Inl e \<Rightarrow> Inl e
          | Inr pivot' \<Rightarrow>
              (case gather_each args tidx of
                 Inl e \<Rightarrow> Inl e
               | Inr args' \<Rightarrow> Inr (pivot', args'))))"

section \<open>The pair batchers of \<^verbatim>\<open>ParallelTextInputter\<close>\<close>

record inputter =
  features_reader :: reader
  labels_reader :: reader
  features_padding_id :: int
  labels_padding_id :: int
  batch_size :: int
  batch_tokens_size :: "int option"
  shuffle_every_epoch :: "string option"
  fill_full_batch :: bool
  bucketing :: bool
  cache_size :: int


subsection \<open>In memory: \<^verbatim>\<open>_small_parallel_data\<close>\<close>

function drain_pairs :: "reader \<Rightarrow> reader \<Rightarrow> seq list \<Rightarrow> seq list \<Rightarrow> reader \<times> reader \<times> seq list \<times> seq list" where
  "drain_pairs fr lr ss_buf tt_buf =
     (case reader_next fr of (ss, fr') \<Rightarrow>
      case reader_next lr of (tt, lr') \<Rightarrow>
        if ss = Eos \<or> tt = Eos then (fr', lr', ss_buf, tt_buf)
        else (case (ss, tt) of
                (Seq s, Seq t) \<Rightarrow> drain_pairs fr' lr' (ss_buf @ [s]) (tt_buf @ [t])
              | _ \<Rightarrow> drain_pairs fr' lr' ss_buf tt_buf))"
  by pat_completeness auto
termination
  by (relation "measure (\<lambda>(fr, lr, b, c). length (source fr) - cursor fr)")
     (auto simp: reader_next_def split: if_splits)

declare drain_pairs.simps [simp del]

partial_function (option) pair_batch_loop ::
  "(seq list \<Rightarrow> seq list \<Rightarrow> py_error + 'b) \<Rightarrow> seq list \<Rightarrow> seq list \<Rightarrow> int \<Rightarrow> int \<Rightarrow> 'b list
     \<Rightarrow> (py_error + 'b list) option"
where
  "pair_batch_loop pack ss_buf tt_buf bsize batch_data_idx dat =
     (if batch_data_idx < int (length ss_buf)
      then (case pack (py_slice ss_buf batch_data_idx (batch_data_idx + bsize))
                      (py_slice tt_buf batch_data_idx (batch_data_idx + bsize)) of
              Inl e \<Rightarrow> Some (Inl e)
            | Inr b \<Rightarrow> pair_batch_loop pack ss_buf tt_buf bsize (batch_data_idx + bsize) (dat @ [b]))
      else Some (Inr dat))"

declare pair_batch_loop.simps [code]

text \<open>
  The buffers that \<^verbatim>\<open>_small_parallel_data\<close> cuts into batches: both readers
  drained and closed, the pairs sorted by the length of the labels when bucketing
  is on.
\<close>

definition small_buffers ::
  "(nat list \<Rightarrow> nat list) \<Rightarrow> inputter \<Rightarrow> py_error + (inputter \<times> seq list \<times> seq list)"
where
  "small_buffers argsort self =
     (let (fr, lr, ss_buf, tt_buf) = drain_pairs (features_reader self) (labels_reader self) [] [];
          self' = self\<lparr>features_reader := reader_close fr, labels_reader := reader_close lr\<rparr>
      in if bucketing self
         then (case do_bucketing argsort tt_buf [ss_buf] of
                 Inl e \<Rightarrow> Inl e
               | Inr (tt_sorted, others) \<Rightarrow>
                   (case others of
                      [] \<Rightarrow> Inl IndexError
                    | ss_sorted # _ \<Rightarrow> Inr (self', ss_sorted, tt_sorted)))
         else Inr (self', ss_buf, tt_buf))"

definition pack_pair :: "'z inputter_scheme \<Rightarrow> (key \<rightharpoonup> 'ph) list \<Rightarrow> seq list \<Rightarrow> seq list \<Rightarrow> py_error + 'ph data" where
  "pack_pair self input_fields features labels =
     pack_feed_dict
       (Several [FEATURE_NAME_PREFIX, LABEL_NAME_PREFIX] [features, labels]
          [features_padding_id self, labels_padding_id self])
       input_fields"

definition small_parallel_data ::
  "(nat list \<Rightarrow> nat list) \<Rightarrow> inputter \<Rightarrow> (key \<rightharpoonup> 'ph) list
     \<Rightarrow> (py_error + (inputter \<times> 'ph data list)) option"
where
  "small_parallel_data argsort self input_fields =
     (case small_buffers argsort self of
        Inl e \<Rightarrow> Some (Inl e)
      | Inr (self', ss_buf, tt_buf) \<Rightarrow>
          (case pair_batch_loop (pack_pair self input_fields) ss_buf tt_buf (batch_size self) 0 [] of
             None \<Rightarrow> None
           | Some (Inl e) \<Rightarrow> Some (Inl e)
           | Some (Inr dat) \<Rightarrow> Some (Inr (self', dat))))"

subsection \<open>Streaming: \<^verbatim>\<open>_BigParallelDataIterator\<close>\<close>

text \<open>
  The iterator copies every attribute of the inputter and adds its buffers, its
  flag and the input fields.
\<close>

record 'ph iterator = inputter +
  features_buffer :: "seq list"
  labels_buffer :: "seq list"
  features_len_buffer :: "nat list"
  labels_len_buffer :: "nat list"
  end_of_data :: bool
  input_fields :: "(key \<rightharpoonup> 'ph) list"

datatype 'ph pulled = Batch "'ph data" | StopIteration

definition reset_readers :: "'ph iterator \<Rightarrow> py_error + 'ph iterator" where
  \<comment> \<open>the method \<^verbatim>\<open>_reset\<close>\<close>
  "reset_readers self =
     (case reader_reset (truthy (shuffle_every_epoch self)) None (features_reader self) of
        Inl e \<Rightarrow> Inl e
      | Inr (argsort_index, fr) \<Rightarrow>
          (case reader_reset (truthy (shuffle_every_epoch self)) argsort_index (labels_reader self) of
             Inl e \<Rightarrow> Inl e
           | Inr (_, lr) \<Rightarrow> Inr (self\<lparr>features_reader := fr, labels_reader := lr\<rparr>)))"

definition BigParallelDataIterator_init :: "inputter \<Rightarrow> (key \<rightharpoonup> 'ph) list \<Rightarrow> py_error + 'ph iterator" where
  "BigParallelDataIterator_init parent inp_fields =
     (case reset_readers
             \<lparr>features_reader = features_reader parent, labels_reader = labels_reader parent,
              features_padding_id = features_padding_id parent,
              labels_padding_id = labels_padding_id parent,
              batch_size = batch_size parent, batch_tokens_size = batch_tokens_size parent,
              shuffle_every_epoch = shuffle_every_epoch parent,
              fill_full_batch = fill_full_batch parent, bucketing = bucketing parent,
              cache_size = cache_size parent,
              features_buffer = [], labels_buffer = [],
              features_len_buffer = [], labels_len_buffer = [],
              end_of_data = False, input_fields = inp_fields\<rparr> of
        Inl e \<Rightarrow> Inl e
      | Inr self \<Rightarrow> Inr self)"

text \<open>
  The three statements that end an epoch, wherever \<^verbatim>\<open>next\<close> writes them:
  \<^verbatim>\<open>self._end_of_data = False; self._reset(); raise StopIteration\<close>.
\<close>

definition stop_epoch :: "'ph iterator \<Rightarrow> py_error + ('ph pulled \<times> 'ph iterator)" where
  "stop_epoch self =
     (case reset_readers (self\<lparr>end_of_data := False\<rparr>) of
        Inl e \<Rightarrow> Inl e
      | Inr self' \<Rightarrow> Inr (StopIteration, self'))"

text \<open>The refill loop \<^verbatim>\<open>while cnt < self._cache_size\<close>.\<close>

function refill ::
  "int \<Rightarrow> int \<Rightarrow> reader \<Rightarrow> reader \<Rightarrow> seq list \<Rightarrow> seq list \<Rightarrow> reader \<times> reader \<times> seq list \<times> seq list"
where
  "refill cnt csize fr lr fbuf lbuf =
     (if cnt < csize
      then (case reader_next fr of (ss, fr') \<Rightarrow>
            case reader_next lr of (tt, lr') \<Rightarrow>
              if ss = Eos \<or> tt = Eos then (fr', lr', fbuf, lbuf)
              else (case (ss, tt) of
                      (Seq s, Seq t) \<Rightarrow> refill (cnt + 1) csize fr' lr' (fbuf @ [s]) (lbuf @ [t])
                    | _ \<Rightarrow> refill cnt csize fr' lr' fbuf lbuf))
      else (fr, lr, fbuf, lbuf))"
  by pat_completeness auto
termination
  by (relation "measure (\<lambda>(cnt, csize, fr, lr, b, c). length (source fr) - cursor fr)")
     (auto simp: reader_next_def split: if_splits)

declare refill.simps [simp del]

definition refill_buffers :: "'ph iterator \<Rightarrow> 'ph iterator" where
  "refill_buffers self =
     (let (fr, lr, fbuf, lbuf) =
            refill (int (length (features_buffer self))) (cache_size self)
              (features_reader self) (labels_reader self)
              (features_buffer self) (labels_buffer self)
      in self\<lparr>features_reader := fr, labels_reader := lr,
              features_buffer := fbuf, labels_buffer := lbuf\<rparr>)"

text \<open>After a refill that left something in the cache: the sort and the length buffers.\<close>

definition bucket_buffers :: "(nat list \<Rightarrow> nat list) \<Rightarrow> 'ph iterator \<Rightarrow> py_error + 'ph iterator" where
  "bucket_buffers argsort self =
     (case (if bucketing self
            then (case do_bucketing argsort (labels_buffer self) [features_buffer self] of
                    Inl e \<Rightarrow> Inl e
                  | Inr (lbuf, others) \<Rightarrow>
                      (case others of
                         [] \<Rightarrow> Inl IndexError
                       | fbuf # _ \<Rightarrow> Inr (self\<lparr>features_buffer := fbuf, labels_buffer := lbuf\<rparr>)))
            else Inr self) of
        Inl e \<Rightarrow> Inl e
      | Inr self' \<Rightarrow>
          Inr (self'\<lparr>features_len_buffer := map length (features_buffer self'),
                     labels_len_buffer := map length (labels_buffer self')\<rparr>))"

text \<open>
  The loop that grows \<^verbatim>\<open>local_batch_size\<close> under a token budget; it returns the
  two sums beside the size.
\<close>

function grow :: "int \<Rightarrow> nat list \<Rightarrow> nat list \<Rightarrow> int \<Rightarrow> int \<Rightarrow> int \<Rightarrow> py_error + (int \<times> int \<times> int)" where
  "grow tokens flen llen sum_s sum_t local_batch_size =
     (if sum_s \<ge> tokens \<or> sum_t \<ge> tokens then Inr (sum_s, sum_t, local_batch_size)
      else if tokens - sum_s < 20 \<or> tokens - sum_t < 20 then Inr (sum_s, sum_t, local_batch_size)
      else if local_batch_size \<ge> int (length flen) then Inr (sum_s, sum_t, local_batch_size)
      else (case py_index flen local_batch_size of
              Inl e \<Rightarrow> Inl e
            | Inr a \<Rightarrow>
                (case py_index llen local_batch_size of
                   Inl e \<Rightarrow> Inl e
                 | Inr b \<Rightarrow>
                     grow tokens flen llen (sum_s + int a) (sum_t + int b) (local_batch_size + 1))))"
  by pat_completeness auto
termination
  by (relation "measure (\<lambda>(tokens, flen, llen, s, t, n). nat (int (length flen) - n))") auto

declare grow.simps [simp del]

definition local_batch_size :: "'ph iterator \<Rightarrow> py_error + int" where
  "local_batch_size self =
     (case batch_tokens_size self of
        None \<Rightarrow> Inr (batch_size self)
      | Some tokens \<Rightarrow>
          (case grow tokens (features_len_buffer self) (labels_len_buffer self)
                  (int (sum_list (py_take (features_len_buffer self) (batch_size self))))
                  (int (sum_list (py_take (labels_len_buffer self) (batch_size self))))
                  (batch_size self) of
             Inl e \<Rightarrow> Inl e
           | Inr (sum_s, sum_t, n) \<Rightarrow> Inr n))"

text \<open>The slices of the batch, and the iterator after they are deleted from the cache.\<close>

definition take_batch :: "'ph iterator \<Rightarrow> int \<Rightarrow> seq list \<times> seq list \<times> 'ph iterator" where
  "take_batch self n =
     (let features = py_take (features_buffer self) n;
          labels = py_take (labels_buffer self) n
      in (features, labels,
          if int (length features) < n
          then self\<lparr>features_buffer := [], labels_buffer := [],
                    features_len_buffer := [], labels_len_buffer := []\<rparr>
          else self\<lparr>features_buffer := py_del_prefix (features_buffer self) n,
                    labels_buffer := py_del_prefix (labels_buffer self) n,
                    features_len_buffer := py_del_prefix (features_len_buffer self) n,
                    labels_len_buffer := py_del_prefix (labels_len_buffer self) n\<rparr>))"

definition pop_parallels :: "'ph data \<Rightarrow> py_error + 'ph data" where
  "pop_parallels dat = (case parallels dat of None \<Rightarrow> Inl KeyError | Some c \<Rightarrow> Inr (dat\<lparr>parallels := None\<rparr>))"

text \<open>The method \<^verbatim>\<open>next\<close> from the test of \<^verbatim>\<open>fill_full_batch\<close> on.\<close>

definition emit :: "'ph iterator \<Rightarrow> py_error + ('ph pulled \<times> 'ph iterator)" where
  "emit self =
     (if fill_full_batch self \<and> int (length (features_buffer self)) < batch_size self
      then stop_epoch self
      else
        (case local_batch_size self of
           Inl e \<Rightarrow> Inl e
         | Inr n \<Rightarrow>
             (let (features, labels, self') = take_batch self n
              in if length features \<le> 0 \<or> length labels \<le> 0 then stop_epoch self'
                 else
                   (case pack_pair self' (input_fields self') features labels of
                      Inl e \<Rightarrow> Inl e
                    | Inr ret_data \<Rightarrow>
                        if fill_full_batch self'
                        then (case pop_parallels ret_data of
                                Inl e \<Rightarrow> Inl e
                              | Inr popped \<Rightarrow> Inr (Batch popped, self'))
                        else Inr (Batch ret_data, self')))))"

definition next_batch ::
  "(nat list \<Rightarrow> nat list) \<Rightarrow> 'ph iterator \<Rightarrow> py_error + ('ph pulled \<times> 'ph iterator)"
where
  \<comment> \<open>the method \<^verbatim>\<open>next\<close>\<close>
  "next_batch argsort self =
     (if end_of_data self then stop_epoch self
      else if length (features_buffer self) \<noteq> length (labels_buffer self) then Inl AssertionError
      else if int (length (features_buffer self)) < batch_size self
      then
        (let self1 = refill_buffers self
         in if length (features_buffer self1) = 0 \<or> length (labels_buffer self1) = 0
            then stop_epoch self1
            else (case bucket_buffers argsort self1 of
                    Inl e \<Rightarrow> Inl e
                  | Inr self2 \<Rightarrow> emit self2))
      else emit self)"

subsection \<open>The facade \<^verbatim>\<open>make_feeding_data\<close>\<close>

datatype 'ph feeding = InMemory inputter "'ph data list" | Streaming "'ph iterator"

definition make_feeding_data ::
  "(nat list \<Rightarrow> nat list) \<Rightarrow> inputter \<Rightarrow> (key \<rightharpoonup> 'ph) list \<Rightarrow> bool \<Rightarrow> (py_error + 'ph feeding) option"
where
  "make_feeding_data argsort self inp_fields in_memory =
     (if in_memory \<and> fill_full_batch self then Some (Inl ValueError)
      else if in_memory \<and> truthy (shuffle_every_epoch self) then Some (Inl ValueError)
      else if in_memory
      then (case small_parallel_data argsort self inp_fields of
              None \<Rightarrow> None
            | Some (Inl e) \<Rightarrow> Some (Inl e)
            | Some (Inr (self', dat)) \<Rightarrow> Some (Inr (InMemory self' dat)))
      else (case BigParallelDataIterator_init self inp_fields of
              Inl e \<Rightarrow> Some (Inl e)
            | Inr it \<Rightarrow> Some (Inr (Streaming it))))"

text \<open>Successive pulls, up to the first exception that is not the end of an epoch.\<close>

fun pulls ::
  "(nat list \<Rightarrow> nat list) \<Rightarrow> nat \<Rightarrow> 'ph iterator \<Rightarrow> py_error + ('ph pulled list \<times> 'ph iterator)"
where
  "pulls argsort 0 self = Inr ([], self)"
| "pulls argsort (Suc k) self =
     (case next_batch argsort self of
        Inl e \<Rightarrow> Inl e
      | Inr (out, self') \<Rightarrow>
          (case pulls argsort k self' of
             Inl e \<Rightarrow> Inl e
           | Inr (outs, self'') \<Rightarrow> Inr (out # outs, self'')))"

section \<open>The default \<^verbatim>\<open>argsort\<close> of NumPy\<close>

text \<open>
  NumPy is a library outside the repository, and \<^verbatim>\<open>do_bucketing\<close> calls its
  \<^verbatim>\<open>argsort\<close> with no \<^verbatim>\<open>kind\<close>, that is with \<^verbatim>\<open>kind='quicksort'\<close>, which NumPy
  documents as not stable.  For the runs on concrete corpora the parameter
  \<open>argsort\<close> is the function below: the routine \<^verbatim>\<open>aquicksort\<close> of NumPy's
  \<^verbatim>\<open>npysort/quicksort\<close> on an array of integers.  It sorts an array of positions
  \<open>t\<close> (\<^verbatim>\<open>tosort\<close>), at first \<open>0, 1, ..., num - 1\<close>, by the keys \<open>v\<close>: a segment of
  more than 17 positions is partitioned about the median of its first, middle
  and last key, a shorter one is sorted by insertion, and a segment taken from
  the stack with the depth limit used up is sorted by \<^verbatim>\<open>aheapsort\<close>.
\<close>

definition INTP_SWAP :: "nat list \<Rightarrow> nat \<Rightarrow> nat \<Rightarrow> nat list" where
  "INTP_SWAP t i j = t[i := t ! j, j := t ! i]"

definition SMALL_QUICKSORT :: nat where
  "SMALL_QUICKSORT = 16"

fun npy_get_msb :: "nat \<Rightarrow> nat" where
  "npy_get_msb unum = (if unum div 2 = 0 then 0 else Suc (npy_get_msb (unum div 2)))"

declare npy_get_msb.simps [simp del]

text \<open>
  \<^verbatim>\<open>do ++pi; while (v[*pi] < vp);\<close> and \<^verbatim>\<open>do --pj; while (vp < v[*pj]);\<close>:
  the position at which each scan stops.
\<close>

definition scan_up :: "nat list \<Rightarrow> nat \<Rightarrow> nat list \<Rightarrow> nat \<Rightarrow> nat" where
  "scan_up v vp t pi = pi + 1 + length (takeWhile (\<lambda>x. v ! x < vp) (drop (pi + 1) t))"

definition scan_down :: "nat list \<Rightarrow> nat \<Rightarrow> nat list \<Rightarrow> nat \<Rightarrow> nat" where
  "scan_down v vp t pj = pj - 1 - length (takeWhile (\<lambda>x. vp < v ! x) (rev (take pj t)))"

function partition_loop :: "nat list \<Rightarrow> nat \<Rightarrow> nat list \<Rightarrow> nat \<Rightarrow> nat \<Rightarrow> nat list \<times> nat" where
  "partition_loop v vp t pi pj =
     (let pi' = scan_up v vp t pi; pj' = scan_down v vp t pj
      in if pi' \<ge> pj' then (t, pi') else partition_loop v vp (INTP_SWAP t pi' pj') pi' pj')"
  by pat_completeness auto
termination
  by (relation "measure (\<lambda>(v, vp, t, pi, pj). pj - pi)") (auto simp: scan_up_def scan_down_def)

declare partition_loop.simps [simp del]

definition partition_segment :: "nat list \<Rightarrow> nat list \<Rightarrow> nat \<Rightarrow> nat \<Rightarrow> nat list \<times> nat" where
  "partition_segment v t pl pr =
     (let pm = pl + (pr - pl) div 2;
          t1 = (if v ! (t ! pm) < v ! (t ! pl) then INTP_SWAP t pm pl else t);
          t2 = (if v ! (t1 ! pr) < v ! (t1 ! pm) then INTP_SWAP t1 pr pm else t1);
          t3 = (if v ! (t2 ! pm) < v ! (t2 ! pl) then INTP_SWAP t2 pm pl else t2);
          vp = v ! (t3 ! pm);
          t4 = INTP_SWAP t3 pm (pr - 1);
          (t5, pi) = partition_loop v vp t4 pl (pr - 1)
      in (INTP_SWAP t5 pi (pr - 1), pi))"

text \<open>The insertion sort of the segment from \<open>pl\<close> to \<open>pr\<close>.\<close>

function shift_right :: "nat list \<Rightarrow> nat \<Rightarrow> nat list \<Rightarrow> nat \<Rightarrow> nat \<Rightarrow> nat list \<times> nat" where
  "shift_right v vp t pl pj =
     (if pj > pl \<and> vp < v ! (t ! (pj - 1))
      then shift_right v vp (t[pj := t ! (pj - 1)]) pl (pj - 1)
      else (t, pj))"
  by pat_completeness auto
termination
  by (relation "measure (\<lambda>(v, vp, t, pl, pj). pj)") auto

declare shift_right.simps [simp del]

definition insertion_sort :: "nat list \<Rightarrow> nat list \<Rightarrow> nat \<Rightarrow> nat \<Rightarrow> nat list" where
  "insertion_sort v t pl pr =
     fold (\<lambda>pi t. let vi = t ! pi;
                       (t', pj) = shift_right v (v ! vi) t pl pi
                   in t'[pj := vi])
          [pl + 1..<pr + 1] t"

text \<open>
  \<^verbatim>\<open>aheapsort\<close> on the \<open>n\<close> positions from \<open>pl\<close> on; its array \<open>a\<close> counts from 1,
  so that \<open>a[k]\<close> is \<open>t ! (pl + k - 1)\<close>.
\<close>

function sift :: "nat list \<Rightarrow> nat list \<Rightarrow> nat \<Rightarrow> nat \<Rightarrow> nat \<Rightarrow> nat \<Rightarrow> nat \<Rightarrow> nat list \<times> nat" where
  "sift v t pl tmp n i j =
     (if 0 < j \<and> j \<le> n
      then (let j' = (if j < n \<and> v ! (t ! (pl + j - 1)) < v ! (t ! (pl + j)) then j + 1 else j)
            in if v ! tmp < v ! (t ! (pl + j' - 1))
               then sift v (t[pl + i - 1 := t ! (pl + j' - 1)]) pl tmp n j' (j' + j')
               else (t, i))
      else (t, i))"
  by pat_completeness auto
termination
  by (relation "measure (\<lambda>(v, t, pl, tmp, n, i, j). Suc n - j)") auto

declare sift.simps [simp del]

definition aheapsort :: "nat list \<Rightarrow> nat list \<Rightarrow> nat \<Rightarrow> nat \<Rightarrow> nat list" where
  "aheapsort v t pl n =
     (let built =
            fold (\<lambda>l t. let tmp = t ! (pl + l - 1);
                             (t', i) = sift v t pl tmp n l (l + l)
                         in t'[pl + i - 1 := tmp])
                 (rev [1..<n div 2 + 1]) t
      in fold (\<lambda>m t. let tmp = t ! (pl + m - 1);
                          t1 = t[pl + m - 1 := t ! pl];
                          (t2, i) = sift v t1 pl tmp (m - 1) 1 2
                      in t2[pl + i - 1 := tmp])
              (rev [2..<n + 1]) built)"

text \<open>
  The main loop of \<^verbatim>\<open>aquicksort\<close>.  The larger part of a partitioned segment goes
  on the stack and the loop goes on with the smaller one; \<open>popped\<close> tells a
  segment taken from the stack (or the whole array at the start), the only place
  where the depth limit is tested.  The first argument bounds the nesting and is
  the number of keys: every part is shorter than its segment.
\<close>

fun aquicksort :: "nat \<Rightarrow> nat list \<Rightarrow> bool \<Rightarrow> int \<Rightarrow> nat list \<Rightarrow> nat \<Rightarrow> nat \<Rightarrow> nat list" where
  "aquicksort 0 v popped cdepth t pl pr = t"
| "aquicksort (Suc fuel) v popped cdepth t pl pr =
     (if popped \<and> cdepth < 0 then aheapsort v t pl (pr - pl + 1)
      else if pr - pl > SMALL_QUICKSORT
      then (let (t', pi) = partition_segment v t pl pr
            in if pi - pl < pr - pi
               then aquicksort fuel v True (cdepth - 1)
                      (aquicksort fuel v False (cdepth - 1) t' pl (pi - 1)) (pi + 1) pr
               else aquicksort fuel v True (cdepth - 1)
                      (aquicksort fuel v False (cdepth - 1) t' (pi + 1) pr) pl (pi - 1))
      else insertion_sort v t pl pr)"

definition npy_argsort :: "nat list \<Rightarrow> nat list" where
  "npy_argsort v =
     (let num = length v
      in if num = 0 then []
         else aquicksort num v True (int (npy_get_msb num) * 2) [0..<num] 0 (num - 1))"

section \<open>Well-formed input fields\<close>

text \<open>
  The input fields on which the assembler raises nothing for the prefix \<open>n\<close>: at
  least one device slot, and in every slot a placeholder for the ids and one for
  the lengths.
\<close>

definition fields_ok :: "name_prefix \<Rightarrow> (key \<rightharpoonup> 'ph) list \<Rightarrow> bool" where
  "fields_ok n fs = (fs \<noteq> [] \<and> (\<forall>f \<in> set fs. f (concat_name n IDS_NAME) \<noteq> None \<and> f (concat_name n LENGTH_NAME) \<noteq> None))"


section \<open>Concrete inputs\<close>

text \<open>Three device slots, each with its own two placeholders for the features.\<close>

definition slot0 :: "key \<rightharpoonup> nat" where
  "slot0 = [concat_name FEATURE_NAME_PREFIX IDS_NAME \<mapsto> 0, concat_name FEATURE_NAME_PREFIX LENGTH_NAME \<mapsto> 1]"




text \<open>A reader of four lines, one of them malformed, for a batch size of 2.\<close>

definition ex_tl :: text_line_inputter where
  "ex_tl = \<lparr>tl_batch_size = 2, tl_padding_id = 0\<rparr>"

definition ex_rd :: reader where
  "ex_rd = \<lparr>source = [Some [1], None, Some [2, 3], Some [4]], cursor = 0, closed = False,
            resets = 0, draws = []\<rparr>"


text \<open>A streaming iterator under a token budget of 100, two pairs in its cache.\<close>

definition ex_tokens :: "nat iterator" where
  "ex_tokens =
     \<lparr>features_reader = ex_rd, labels_reader = ex_rd,
      features_padding_id = 0, labels_padding_id = 0,
      batch_size = 1, batch_tokens_size = Some 100, shuffle_every_epoch = None,
      fill_full_batch = False, bucketing = False, cache_size = 600,
      features_buffer = [replicate 10 7, replicate 95 7],
      labels_buffer = [replicate 10 8, replicate 95 8],
      features_len_buffer = [10, 95], labels_len_buffer = [10, 95],
      end_of_data = False, input_fields = [slot0]\<rparr>"

text \<open>Three sequences to sort by length, and a list carried along.\<close>

definition ex_pivot :: "seq list" where
  "ex_pivot = [[7, 7, 7], [8], [9, 9]]"

definition ex_other :: "seq list" where
  "ex_other = [[3], [1], [2]]"

text \<open>Eighteen sequences of one token each.\<close>

definition eighteen :: "seq list" where
  "eighteen = [[0], [1], [2], [3], [4], [5], [6], [7], [8], [9], [10], [11], [12], [13], [14],
               [15], [16], [17]]"

text \<open>
  What the two pair readers keep of two streams of lines read side by side: the
  pairs of lines of one index, up to the end of the shorter stream, that are
  sequences on both sides.
\<close>

fun complete_pairs :: "(seq option \<times> seq option) list \<Rightarrow> (seq \<times> seq) list" where
  "complete_pairs [] = []"
| "complete_pairs ((Some s, Some t) # rest) = (s, t) # complete_pairs rest"
| "complete_pairs (_ # rest) = complete_pairs rest"

text \<open>The lines of a reader from its cursor on.\<close>

definition ahead :: "reader \<Rightarrow> seq option list" where
  "ahead r = drop (cursor r) (source r)"

text \<open>
  The invariant of the streaming iterator for a set \<open>P\<close> of pairs of lines: the
  lines of one index of the two readers are pairs of \<open>P\<close>, in the current
  arrangement and from the two cursors on; the cache holds pairs of \<open>P\<close>, as many
  features as labels; and the two length buffers hold the lengths of the cached
  sequences.
\<close>

definition pairing_inv :: "(seq option \<times> seq option) set \<Rightarrow> 'ph iterator \<Rightarrow> bool" where
  "pairing_inv P self =
     (set (zip (source (features_reader self)) (source (labels_reader self))) \<subseteq> P
      \<and> set (zip (ahead (features_reader self)) (ahead (labels_reader self))) \<subseteq> P
      \<and> set (zip (map Some (features_buffer self)) (map Some (labels_buffer self))) \<subseteq> P
      \<and> length (features_buffer self) = length (labels_buffer self)
      \<and> features_len_buffer self = map length (features_buffer self)
      \<and> labels_len_buffer self = map length (labels_buffer self))"

text \<open>
  A batch record holds pairs of the corpora: its features and its labels are as
  many, and at every position the two sequences stand on one line of the two
  readers' sources.
\<close>

definition originally_paired :: "reader \<Rightarrow> reader \<Rightarrow> 'ph data \<Rightarrow> bool" where
  "originally_paired f_reader l_reader dat =
     (\<exists>fs ls. ids dat (concat_name FEATURE_NAME_PREFIX IDS_NAME) = Some fs
            \<and> ids dat (concat_name LABEL_NAME_PREFIX IDS_NAME) = Some ls
            \<and> length fs = length ls
            \<and> (\<forall>i<length fs. (Some (fs ! i), Some (ls ! i)) \<in> set (zip (source f_reader) (source l_reader))))"

text \<open>One device slot with placeholders for the features and for the labels.\<close>

definition slot_pair :: "key \<rightharpoonup> nat" where
  "slot_pair =
     [concat_name FEATURE_NAME_PREFIX IDS_NAME \<mapsto> 0, concat_name FEATURE_NAME_PREFIX LENGTH_NAME \<mapsto> 1,
      concat_name LABEL_NAME_PREFIX IDS_NAME \<mapsto> 2, concat_name LABEL_NAME_PREFIX LENGTH_NAME \<mapsto> 3]"

text \<open>The features and the labels of a pulled batch, \<open>None\<close> for the end of an epoch.\<close>

definition batch_ids :: "'ph pulled \<Rightarrow> (seq list option \<times> seq list option) option" where
  "batch_ids out =
     (case out of
        StopIteration \<Rightarrow> None
      | Batch dat \<Rightarrow>
          Some (ids dat (concat_name FEATURE_NAME_PREFIX IDS_NAME),
                ids dat (concat_name LABEL_NAME_PREFIX IDS_NAME)))"

text \<open>
  What a caller sees of a streaming session of \<open>k\<close> pulls: the batches, and after
  the last pull the flag, the two reset counts and the cache.
\<close>

definition streamed ::
  "(nat list \<Rightarrow> nat list) \<Rightarrow> inputter \<Rightarrow> (key \<rightharpoonup> 'ph) list \<Rightarrow> nat
     \<Rightarrow> ((seq list option \<times> seq list option) option list \<times> bool \<times> nat \<times> nat \<times> seq list \<times> seq list)
          option"
where
  "streamed argsort self fs k =
     (case make_feeding_data argsort self fs False of
        Some (Inr (Streaming it)) \<Rightarrow>
          (case pulls argsort k it of
             Inl e \<Rightarrow> None
           | Inr (outs, it') \<Rightarrow>
               Some (map batch_ids outs, end_of_data it',
                     resets (features_reader it'), resets (labels_reader it'),
                     features_buffer it', labels_buffer it'))
      | _ \<Rightarrow> None)"

text \<open>The features and the labels of the batches of an in-memory call.\<close>

definition in_memory_ids ::
  "(nat list \<Rightarrow> nat list) \<Rightarrow> inputter \<Rightarrow> (key \<rightharpoonup> 'ph) list
     \<Rightarrow> (seq list option \<times> seq list option) option list option"
where
  "in_memory_ids argsort self fs =
     (case make_feeding_data argsort self fs True of
        Some (Inr (InMemory self' dats)) \<Rightarrow> Some (map (\<lambda>d. batch_ids (Batch d)) dats)
      | _ \<Rightarrow> None)"

text \<open>
  Two corpora of four lines, one line malformed, for a streaming session that
  shuffles and sorts; the readers are handed over at different lines.
\<close>

definition ex_shuffling :: inputter where
  "ex_shuffling =
     \<lparr>features_reader =
        \<lparr>source = [Some [1, 1, 1], Some [2], None, Some [4, 4]], cursor = 3, closed = False,
         resets = 0, draws = [[3, 1, 0, 2], [0, 1, 2, 3]]\<rparr>,
      labels_reader =
        \<lparr>source = [Some [10], Some [20, 20, 20], Some [30], Some [40, 40]], cursor = 1, closed = False,
         resets = 0, draws = []\<rparr>,
      features_padding_id = 0, labels_padding_id = 0,
      batch_size = 2, batch_tokens_size = None, shuffle_every_epoch = Some ''shuf'',
      fill_full_batch = False, bucketing = True, cache_size = 256\<rparr>"

text \<open>An in-memory configuration whose features have one line more than its labels.\<close>

definition ex_small :: inputter where
  "ex_small =
     \<lparr>features_reader =
        \<lparr>source = [Some [1, 1, 1], Some [2], None, Some [4, 4], Some [5]], cursor = 0, closed = False,
         resets = 0, draws = []\<rparr>,
      labels_reader =
        \<lparr>source = [Some [10], Some [20, 20, 20], Some [30], Some [40, 40]], cursor = 0, closed = False,
         resets = 0, draws = []\<rparr>,
      features_padding_id = 0, labels_padding_id = 0,
      batch_size = 2, batch_tokens_size = None, shuffle_every_epoch = None,
      fill_full_batch = False, bucketing = True, cache_size = 256\<rparr>"

text \<open>Two corpora of three pairs.\<close>

definition ex_features :: reader where
  "ex_features = \<lparr>source = [Some [1], Some [2], Some [3]], cursor = 0, closed = False,
                  resets = 0, draws = []\<rparr>"

definition ex_labels :: reader where
  "ex_labels = \<lparr>source = [Some [11], Some [12], Some [13]], cursor = 0, closed = False,
                resets = 0, draws = []\<rparr>"

text \<open>A streaming configuration for batches of two pairs, short batches allowed.\<close>

definition ex_plain :: inputter where
  "ex_plain =
     \<lparr>features_reader = ex_features, labels_reader = ex_labels,
      features_padding_id = 0, labels_padding_id = 0,
      batch_size = 2, batch_tokens_size = None, shuffle_every_epoch = None,
      fill_full_batch = False, bucketing = False, cache_size = 256\<rparr>"


text \<open>The reader whose corpus ends \<open>k\<close> lines after the cursor.\<close>

definition shorten :: "nat \<Rightarrow> reader \<Rightarrow> reader" where
  "shorten k r = r\<lparr>source := take (cursor r + k) (source r)\<rparr>"
section \<open>The device partition\<close>

lemma feed_batchs_result:
  assumes "feed_batchs n d p per k inpf dat = Inr (c, dat')"
  shows "c = min per (length d - k * per) \<and> ids dat' = ids dat \<and> parallels dat' = parallels dat"
  using assms
  by (auto simp: feed_batchs_def padding_batch_data_def Let_def split: if_splits option.splits)

lemma repeat_loop_feed:
  assumes "repeat_loop (feed_batchs n d p per) kfs dat = Inr (cs, dat')"
  shows "cs = map (\<lambda>k. min per (length d - k * per)) (map fst kfs) \<and> ids dat' = ids dat
         \<and> parallels dat' = parallels dat"
  using assms
proof (induction kfs arbitrary: dat cs)
  case Nil
  then show ?case by simp
next
  case (Cons kf kfs)
  obtain k f where kf: "kf = (k, f)" by (cases kf)
  from Cons.prems kf obtain c d1 cs1 where
    s1: "feed_batchs n d p per k f dat = Inr (c, d1)" and
    s2: "repeat_loop (feed_batchs n d p per) kfs d1 = Inr (cs1, dat')" and
    cs: "cs = c # cs1"
    by (auto split: sum.splits prod.splits)
  from feed_batchs_result[OF s1] Cons.IH[OF s2] cs kf show ?case by simp
qed




lemma concat_blocks: "concat (map (\<lambda>k. take c (drop (k * c) d)) [0..<m]) = take (m * c) d"
proof (induction m)
  case 0
  then show ?case by simp
next
  case (Suc m)
  have "take (m * c) d @ take c (drop (m * c) d) = take (m * c + c) d"
    by (simp add: take_add)
  with Suc show ?case by (simp add: add.commute)
qed


lemma feed_batchs_block:
  assumes "k * per < length d"
    and "inpf (concat_name n IDS_NAME) = Some a" and "inpf (concat_name n LENGTH_NAME) = Some b"
  shows "feed_batchs n d p per k inpf st =
           Inr (length (take per (drop (k * per) d)),
                st\<lparr>feeds := ((feeds st)
                   (a \<mapsto> Padded (fst (padding_batch_data (take per (drop (k * per) d)) p))))
                   (b \<mapsto> Lengths (map length (take per (drop (k * per) d))))\<rparr>)"
  using assms by (simp add: feed_batchs_def padding_batch_data_def Let_def)

lemma map_fn_parallels:
  assumes "map_fn inp_fields n d p dat0 = Inr dat"
  shows "0 < length inp_fields"
    and "parallels dat =
           Some (map (\<lambda>k. min (n_samples_per_gpu (length d) (length inp_fields))
                              (length d - k * n_samples_per_gpu (length d) (length inp_fields)))
                   [0..<length inp_fields])"
    and "ids dat = (ids dat0)(concat_name n IDS_NAME \<mapsto> d)"
proof -
  show D: "0 < length inp_fields"
    using assms by (auto simp: map_fn_def Let_def split: if_splits)
  let ?per = "n_samples_per_gpu (length d) (length inp_fields)"
  let ?d1 = "dat0\<lparr>ids := (ids dat0)(concat_name n IDS_NAME \<mapsto> d)\<rparr>"
  from assms D obtain cs d2 where
    r: "repeat_loop (feed_batchs n d p ?per) (zip [0..<length inp_fields] inp_fields) ?d1 = Inr (cs, d2)"
    and dat: "dat = d2\<lparr>parallels := Some cs\<rparr>"
    by (auto simp: map_fn_def Let_def repeat_n_times_def split: if_splits sum.splits)
  from repeat_loop_feed[OF r] dat
  show "parallels dat = Some (map (\<lambda>k. min ?per (length d - k * ?per)) [0..<length inp_fields])"
    and "ids dat = (ids dat0)(concat_name n IDS_NAME \<mapsto> d)"
    by simp_all
qed




section \<open>The single-corpus batcher keeps the order of the lines\<close>

lemma repeat_loop_ok:
  assumes "\<forall>(k, f) \<in> set kfs. f (concat_name n IDS_NAME) \<noteq> None \<and> f (concat_name n LENGTH_NAME) \<noteq> None"
  shows "\<exists>cs dat'. repeat_loop (feed_batchs n d p per) kfs dat = Inr (cs, dat')"
  using assms
proof (induction kfs arbitrary: dat)
  case Nil
  then show ?case by simp
next
  case (Cons kf kfs)
  obtain k f where kf: "kf = (k, f)" by (cases kf)
  from Cons.prems kf obtain a b where
    ab: "f (concat_name n IDS_NAME) = Some a" "f (concat_name n LENGTH_NAME) = Some b"
    by auto
  obtain c d1 where s1: "feed_batchs n d p per k f dat = Inr (c, d1)"
    using ab by (cases "length d \<le> k * per")
      (auto simp: feed_batchs_def padding_batch_data_def Let_def)
  from Cons.prems have "\<forall>(k, f) \<in> set kfs. f (concat_name n IDS_NAME) \<noteq> None \<and> f (concat_name n LENGTH_NAME) \<noteq> None"
    by simp
  from Cons.IH[OF this, of d1] obtain cs d2 where
    "repeat_loop (feed_batchs n d p per) kfs d1 = Inr (cs, d2)" by blast
  with s1 kf show ?case by simp
qed

lemma map_fn_ok:
  assumes "fields_ok n fs"
  shows "\<exists>dat. map_fn fs n d p dat0 = Inr dat"
proof -
  let ?per = "n_samples_per_gpu (length d) (length fs)"
  let ?d1 = "dat0\<lparr>ids := (ids dat0)(concat_name n IDS_NAME \<mapsto> d)\<rparr>"
  have "\<forall>(k, f) \<in> set (zip [0..<length fs] fs). f (concat_name n IDS_NAME) \<noteq> None \<and> f (concat_name n LENGTH_NAME) \<noteq> None"
    using assms by (auto simp: fields_ok_def dest: set_zip_rightD)
  from repeat_loop_ok[OF this, of d p ?per ?d1] obtain cs d2 where
    "repeat_loop (feed_batchs n d p ?per) (zip [0..<length fs] fs) ?d1 = Inr (cs, d2)" by blast
  then show ?thesis using assms
    by (simp add: map_fn_def Let_def repeat_n_times_def fields_ok_def)
qed

lemma pack_single_ok:
  assumes "fields_ok n fs"
  shows "\<exists>dat. pack_feed_dict (Single n d p) fs = Inr dat \<and> ids dat (concat_name n IDS_NAME) = Some d"
proof -
  from map_fn_ok[OF assms] obtain dat where m: "map_fn fs n d p empty_data = Inr dat" by blast
  from map_fn_parallels(3)[OF m] m show ?thesis by simp
qed

lemma drain_all:
  "drain r buf = (r\<lparr>cursor := max (cursor r) (length (source r))\<rparr>,
                  buf @ List.map_filter (\<lambda>x. x) (drop (cursor r) (source r)))"
proof (induction r buf rule: drain.induct)
  case (1 r ss_buf)
  show ?case
  proof (cases "cursor r < length (source r)")
    case False
    then show ?thesis
      by (subst drain.simps) (simp add: reader_next_def max_def)
  next
    case True
    then have d: "drop (cursor r) (source r) = source r ! cursor r # drop (Suc (cursor r)) (source r)"
      by (simp add: Cons_nth_drop_Suc)
    show ?thesis
    proof (cases "source r ! cursor r")
      case None
      with True have n: "reader_next r = (Skip, r\<lparr>cursor := Suc (cursor r)\<rparr>)"
        by (simp add: reader_next_def)
      show ?thesis
        using "1.IH"(1)[OF n[symmetric] refl] True None d
        by (subst drain.simps) (simp add: n List.map_filter_simps max_def)
    next
      case (Some s)
      with True have n: "reader_next r = (Seq s, r\<lparr>cursor := Suc (cursor r)\<rparr>)"
        by (simp add: reader_next_def)
      show ?thesis
        using "1.IH"(2)[OF n[symmetric] refl] True Some d
        by (subst drain.simps) (simp add: n List.map_filter_simps max_def)
    qed
  qed
qed

lemma py_slice_chunk:
  "py_slice xs (int (i * b)) (int (i * b) + int b) = take b (drop (i * b) xs)"
proof -
  have n: "\<And>k. py_norm (length xs) (int k) = min (length xs) k"
    by (simp add: py_norm_def)
  have "int (i * b) + int b = int (i * b + b)" by simp
  with n[of "i * b"] n[of "i * b + b"]
  have "py_norm (length xs) (int (i * b)) = min (length xs) (i * b)"
    "py_norm (length xs) (int (i * b) + int b) = min (length xs) (i * b + b)"
    by (simp_all only:)
  then show ?thesis
    by (cases "i * b \<le> length xs") (auto simp: py_slice_def Let_def min_def)
qed

lemma batch_loop_chunks:
  assumes b: "0 < b" and ok: "\<And>c. \<exists>d. pack c = Inr d \<and> R c d"
  shows "\<exists>dat. batch_loop pack buf (int b) (int (i * b)) acc = Some (Inr (acc @ dat))
           \<and> length dat = (length buf + b - 1) div b - i
           \<and> (\<forall>j<length dat. R (take b (drop ((i + j) * b) buf)) (dat ! j))"
proof (induction "(length buf + b - 1) div b - i" arbitrary: i acc)
  case 0
  then have "(length buf + b - 1) div b \<le> i" by simp
  then have "(length buf + b - 1) div b < i + 1" by simp
  then have "length buf + b - 1 < (i + 1) * b"
    using b by (simp only: div_less_iff_less_mult)
  then have "length buf \<le> i * b" using b by simp
  then have "\<not> int (i * b) < int (length buf)" by (simp only: of_nat_less_iff not_less)
  then have "batch_loop pack buf (int b) (int (i * b)) acc = Some (Inr acc)"
    by (subst batch_loop.simps) (simp only: if_False)
  with 0 show ?case by simp
next
  case (Suc m)
  then have lt: "i < (length buf + b - 1) div b" by simp
  then have "i + 1 \<le> (length buf + b - 1) div b" by simp
  then have "(i + 1) * b \<le> length buf + b - 1"
    using b by (simp only: less_eq_div_iff_mult_less_eq)
  then have ib: "i * b < length buf" using b by (cases b) auto
  obtain d where d: "pack (take b (drop (i * b) buf)) = Inr d" "R (take b (drop (i * b) buf)) d"
    using ok by blast
  have m: "m = (length buf + b - 1) div b - Suc i" using Suc(2) by simp
  from Suc(1)[OF m, of "acc @ [d]"] obtain dat where
    r: "batch_loop pack buf (int b) (int (Suc i * b)) (acc @ [d]) = Some (Inr ((acc @ [d]) @ dat))"
    and l: "length dat = (length buf + b - 1) div b - Suc i"
    and c: "\<forall>j<length dat. R (take b (drop ((Suc i + j) * b) buf)) (dat ! j)"
    by blast
  have e: "int (i * b) + int b = int (Suc i * b)" by simp
  have ib': "int (i * b) < int (length buf)" using ib by (simp only: of_nat_less_iff)
  have sl: "py_slice buf (int (i * b)) (int (Suc i * b)) = take b (drop (i * b) buf)"
    using py_slice_chunk[of buf i b] by (simp only: e)
  have "batch_loop pack buf (int b) (int (i * b)) acc = Some (Inr (acc @ (d # dat)))"
    by (subst batch_loop.simps)
       (simp only: ib' if_True e sl d(1) sum.case r append_assoc append_Cons append_Nil)
  moreover have "length (d # dat) = (length buf + b - 1) div b - i" using l lt by simp
  moreover have "\<forall>j<length (d # dat). R (take b (drop ((i + j) * b) buf)) ((d # dat) ! j)"
  proof (intro allI impI)
    fix j assume "j < length (d # dat)"
    then show "R (take b (drop ((i + j) * b) buf)) ((d # dat) ! j)"
      using d(2) c by (cases j) auto
  qed
  ultimately show ?case by blast
qed

lemma ceil_mult_ge: "0 < b \<Longrightarrow> a \<le> (a + b - 1) div b * b" for a b :: nat
  using dividend_less_div_times[of b "a + b - 1"] by simp

text \<open>
  C8.  Order preservation of the single-corpus batcher.  With a positive batch
  size \<open>b\<close> and well-formed input fields, \<^verbatim>\<open>_make_feeding_data_from\<close> returns: the
  reader is drained (its next read is the end sentinel) and closed, its lines are
  untouched, and the batches are the chunks of the drained list, the lines that
  are not \<^verbatim>\<open>None\<close> from the cursor on, in read order: batch \<open>i\<close> holds
  \<^verbatim>\<open>lines[i * b : (i + 1) * b]\<close>, every batch but the last has \<open>b\<close> lines, and
  the chunks one after the other are the drained list.
\<close>

theorem single_corpus_order:
  assumes bs: "0 < tl_batch_size self" and wf: "fields_ok n inp_fields"
  shows "\<exists>r dat. make_feeding_data_from self rd inp_fields n = Some (r, Inr dat)
          \<and> closed r \<and> source r = source rd \<and> reader_next r = (Eos, r)
          \<and> (let lines = List.map_filter (\<lambda>x. x) (drop (cursor rd) (source rd));
                  b = nat (tl_batch_size self)
              in length dat = (length lines + b - 1) div b
               \<and> (\<forall>i<length dat.
                     ids (dat ! i) (concat_name n IDS_NAME) = Some (take b (drop (i * b) lines)))
               \<and> (\<forall>i. Suc i < length dat \<longrightarrow> length (take b (drop (i * b) lines)) = b)
               \<and> concat (map (\<lambda>i. take b (drop (i * b) lines)) [0..<length dat]) = lines)"
proof -
  define lines where "lines = List.map_filter (\<lambda>x. x) (drop (cursor rd) (source rd))"
  define b where "b = nat (tl_batch_size self)"
  define r where "r = reader_close (rd\<lparr>cursor := max (cursor rd) (length (source rd))\<rparr>)"
  let ?pack = "\<lambda>chunk. pack_feed_dict (Single n chunk (tl_padding_id self)) inp_fields :: py_error + 'a data"
  have b0: "0 < b" and bi: "tl_batch_size self = int b" using bs by (simp_all add: b_def)
  have dr: "drain rd [] = (rd\<lparr>cursor := max (cursor rd) (length (source rd))\<rparr>, lines)"
    by (simp add: drain_all lines_def)
  have ok: "\<And>c. \<exists>d. ?pack c = Inr d \<and> ids d (concat_name n IDS_NAME) = Some c"
    using pack_single_ok[OF wf] by blast
  from batch_loop_chunks[where pack = ?pack and R = "\<lambda>c d. ids d (concat_name n IDS_NAME) = Some c"
      and b = b and i = 0 and acc = "[]" and buf = lines, OF b0 ok]
  obtain dat where
    l: "batch_loop ?pack lines (int b) 0 [] = Some (Inr dat)"
    and len: "length dat = (length lines + b - 1) div b"
    and ch: "\<forall>j<length dat. ids (dat ! j) (concat_name n IDS_NAME) = Some (take b (drop (j * b) lines))"
    by auto
  have res: "make_feeding_data_from self rd inp_fields n = Some (r, Inr dat)"
    by (simp add: make_feeding_data_from_def dr l bi r_def del: pack_feed_dict.simps)
  have r1: "closed r" "source r = source rd" "reader_next r = (Eos, r)"
    by (simp_all add: r_def reader_close_def reader_next_def)
  have full: "\<forall>i. Suc i < length dat \<longrightarrow> length (take b (drop (i * b) lines)) = b"
  proof (intro allI impI)
    fix i assume "Suc i < length dat"
    then have "Suc (Suc i) \<le> (length lines + b - 1) div b" using len by simp
    then have "Suc (Suc i) * b \<le> length lines + b - 1"
      using b0 by (simp only: less_eq_div_iff_mult_less_eq)
    then have "Suc i * b \<le> length lines" using b0 by simp
    then show "length (take b (drop (i * b) lines)) = b" by simp
  qed
  have cc: "concat (map (\<lambda>i. take b (drop (i * b) lines)) [0..<length dat]) = lines"
    using ceil_mult_ge[OF b0, of "length lines"] by (simp add: concat_blocks len)
  show ?thesis
    unfolding Let_def lines_def[symmetric] b_def[symmetric]
    using res r1 len ch full cc by blast
qed


theorem single_corpus_order_witness:
  "\<exists>r dat. make_feeding_data_from ex_tl ex_rd [slot0] FEATURE_NAME_PREFIX = Some (r, Inr dat)
     \<and> closed r \<and> length dat = 2
     \<and> ids (dat ! 0) (concat_name FEATURE_NAME_PREFIX IDS_NAME) = Some [[1], [2, 3]]
     \<and> ids (dat ! 1) (concat_name FEATURE_NAME_PREFIX IDS_NAME) = Some [[4]]"
proof -
  have a: "0 < tl_batch_size ex_tl" by (simp add: ex_tl_def)
  have b: "fields_ok FEATURE_NAME_PREFIX [slot0]"
    by (simp add: fields_ok_def slot0_def concat_name_def)
  have l: "List.map_filter (\<lambda>x. x) (drop (cursor ex_rd) (source ex_rd)) = [[1], [2, 3], [4]]"
    by (simp add: ex_rd_def List.map_filter_simps)
  have n: "nat (tl_batch_size ex_tl) = 2" by (simp add: ex_tl_def)
  from single_corpus_order[OF a b, of ex_rd, unfolded Let_def l n]
  obtain r dat where
    1: "make_feeding_data_from ex_tl ex_rd [slot0] FEATURE_NAME_PREFIX = Some (r, Inr dat)"
    and 2: "closed r"
    and 3: "length dat = (length [[1], [2, 3], [4 :: int]] + 2 - 1) div 2"
    and 4: "\<forall>i<length dat. ids (dat ! i) (concat_name FEATURE_NAME_PREFIX IDS_NAME)
               = Some (take 2 (drop (i * 2) [[1], [2, 3], [4]]))"
    by blast
  from 3 have 5: "length dat = 2" by simp
  from 4 5 have "ids (dat ! 0) (concat_name FEATURE_NAME_PREFIX IDS_NAME) = Some [[1], [2, 3]]"
    and "ids (dat ! 1) (concat_name FEATURE_NAME_PREFIX IDS_NAME) = Some [[4]]"
    by (simp_all del: One_nat_def)
  with 1 2 5 show ?thesis by blast
qed

section \<open>Growing a batch under a token budget\<close>

lemma py_take_nonneg: "0 \<le> n \<Longrightarrow> py_take xs n = take (nat n) xs"
  by (simp add: py_take_def py_norm_def min_def)

lemma py_index_in_range:
  "0 \<le> i \<Longrightarrow> i < int (length xs) \<Longrightarrow> py_index xs i = Inr (xs ! nat i)"
  by (simp add: py_index_def)

lemma sum_take_Suc:
  "k < length xs \<Longrightarrow> sum_list (take (Suc k) xs) = sum_list (take k xs) + xs ! k"
  by (simp add: take_Suc_conv_app_nth)

lemma grow_spec:
  assumes "0 \<le> n0" and "length llen = length flen"
    and "sum_s = int (sum_list (take (nat n0) flen))"
    and "sum_t = int (sum_list (take (nat n0) llen))"
  shows "\<exists>n. grow tokens flen llen sum_s sum_t n0
               = Inr (int (sum_list (take (nat n) flen)), int (sum_list (take (nat n) llen)), n)
           \<and> n0 \<le> n
           \<and> (\<forall>k. n0 \<le> k \<and> k < n \<longrightarrow>
                  int (sum_list (take (nat k) flen)) < tokens \<and> int (sum_list (take (nat k) llen)) < tokens
                \<and> 20 \<le> tokens - int (sum_list (take (nat k) flen))
                \<and> 20 \<le> tokens - int (sum_list (take (nat k) llen))
                \<and> k < int (length flen))
           \<and> \<not> (int (sum_list (take (nat n) flen)) < tokens \<and> int (sum_list (take (nat n) llen)) < tokens
                \<and> 20 \<le> tokens - int (sum_list (take (nat n) flen))
                \<and> 20 \<le> tokens - int (sum_list (take (nat n) llen))
                \<and> n < int (length flen))"
  using assms
proof (induction tokens flen llen sum_s sum_t n0 rule: grow.induct)
  case (1 tokens flen llen sum_s sum_t n0)
  let ?S = "\<lambda>k. int (sum_list (take (nat k) flen))"
  let ?T = "\<lambda>k. int (sum_list (take (nat k) llen))"
  let ?go = "\<lambda>k. ?S k < tokens \<and> ?T k < tokens \<and> 20 \<le> tokens - ?S k \<and> 20 \<le> tokens - ?T k
                 \<and> k < int (length flen)"
  show ?case
  proof (cases "?go n0")
    case False
    then have "grow tokens flen llen sum_s sum_t n0 = Inr (sum_s, sum_t, n0)"
      using "1.prems" by (subst grow.simps) auto
    with False "1.prems" show ?thesis by auto
  next
    case True
    then have lt: "nat n0 < length flen" "nat n0 < length llen" using "1.prems" by auto
    have a: "py_index flen n0 = Inr (flen ! nat n0)" and b: "py_index llen n0 = Inr (llen ! nat n0)"
      using True "1.prems" by (simp_all add: py_index_in_range)
    have n1: "nat (n0 + 1) = Suc (nat n0)" using "1.prems"(1) by simp
    have s: "sum_s + int (flen ! nat n0) = ?S (n0 + 1)" "sum_t + int (llen ! nat n0) = ?T (n0 + 1)"
      using lt "1.prems" by (simp_all add: sum_take_Suc n1)
    have c: "\<not> (tokens \<le> sum_s \<or> tokens \<le> sum_t)" "\<not> (tokens - sum_s < 20 \<or> tokens - sum_t < 20)"
      "\<not> int (length flen) \<le> n0"
      using True "1.prems" by auto
    from "1.IH"[OF c a b _ "1.prems"(2) s] "1.prems"(1)
    obtain n where
      g: "grow tokens flen llen (sum_s + int (flen ! nat n0)) (sum_t + int (llen ! nat n0)) (n0 + 1)
            = Inr (?S n, ?T n, n)"
      and le: "n0 + 1 \<le> n"
      and w: "\<forall>k. n0 + 1 \<le> k \<and> k < n \<longrightarrow> ?go k"
      and st: "\<not> ?go n"
      by auto
    have "grow tokens flen llen sum_s sum_t n0 = Inr (?S n, ?T n, n)"
      using c a b g by (subst grow.simps) simp
    moreover have "\<forall>k. n0 \<le> k \<and> k < n \<longrightarrow> ?go k"
    proof (intro allI impI)
      fix k assume k: "n0 \<le> k \<and> k < n"
      show "?go k"
      proof (cases "k = n0")
        case True
        with \<open>?go n0\<close> show ?thesis by simp
      next
        case False
        with k w show ?thesis by auto
      qed
    qed
    ultimately show ?thesis using le st by (intro exI[of _ n]) auto
  qed
qed

text \<open>
  C3.  Token-budget batch growth.  Under a budget \<open>tokens\<close>, with a batch size
  that is not negative and the two length buffers of one length,
  \<^verbatim>\<open>local_batch_size\<close> starts at \<^verbatim>\<open>batch_size\<close> and ends at the first size \<open>n\<close> from
  there on at which the loop's condition fails: at every size \<open>k\<close> before \<open>n\<close> the
  sums of the feature lengths and of the label lengths over the first \<open>k\<close>
  sequences are both below the budget, both margins are at least 20, and the
  buffer has a sequence at position \<open>k\<close>; at \<open>n\<close> one of these fails.  The last
  sequence taken in can carry a sum past the budget: with a budget of 100 and the
  lengths 10 and 95 the loop ends at size 2 with both sums at 105.
\<close>

theorem token_budget_growth:
  assumes tk: "batch_tokens_size self = Some tokens"
    and bs: "0 \<le> batch_size self"
    and sync: "length (labels_len_buffer self) = length (features_len_buffer self)"
  shows "(\<exists>n. local_batch_size self = Inr n \<and> batch_size self \<le> n
           \<and> (\<forall>k. batch_size self \<le> k \<and> k < n \<longrightarrow>
                  int (sum_list (take (nat k) (features_len_buffer self))) < tokens
                \<and> int (sum_list (take (nat k) (labels_len_buffer self))) < tokens
                \<and> 20 \<le> tokens - int (sum_list (take (nat k) (features_len_buffer self)))
                \<and> 20 \<le> tokens - int (sum_list (take (nat k) (labels_len_buffer self)))
                \<and> k < int (length (features_len_buffer self)))
           \<and> \<not> (int (sum_list (take (nat n) (features_len_buffer self))) < tokens
                \<and> int (sum_list (take (nat n) (labels_len_buffer self))) < tokens
                \<and> 20 \<le> tokens - int (sum_list (take (nat n) (features_len_buffer self)))
                \<and> 20 \<le> tokens - int (sum_list (take (nat n) (labels_len_buffer self)))
                \<and> n < int (length (features_len_buffer self))))
       \<and> grow 100 [10, 95] [10, 95] 10 10 1 = Inr (105, 105, 2)"
proof -
  let ?flen = "features_len_buffer self" and ?llen = "labels_len_buffer self"
  have s: "int (sum_list (py_take ?flen (batch_size self))) = int (sum_list (take (nat (batch_size self)) ?flen))"
    "int (sum_list (py_take ?llen (batch_size self))) = int (sum_list (take (nat (batch_size self)) ?llen))"
    using bs by (simp_all add: py_take_nonneg)
  from grow_spec[OF bs sync s(1) s(2), of tokens]
  obtain n where
    g: "grow tokens ?flen ?llen (int (sum_list (py_take ?flen (batch_size self))))
          (int (sum_list (py_take ?llen (batch_size self)))) (batch_size self)
        = Inr (int (sum_list (take (nat n) ?flen)), int (sum_list (take (nat n) ?llen)), n)"
    and r: "batch_size self \<le> n"
      "\<forall>k. batch_size self \<le> k \<and> k < n \<longrightarrow>
                  int (sum_list (take (nat k) ?flen)) < tokens
                \<and> int (sum_list (take (nat k) ?llen)) < tokens
                \<and> 20 \<le> tokens - int (sum_list (take (nat k) ?flen))
                \<and> 20 \<le> tokens - int (sum_list (take (nat k) ?llen))
                \<and> k < int (length ?flen)"
      "\<not> (int (sum_list (take (nat n) ?flen)) < tokens
                \<and> int (sum_list (take (nat n) ?llen)) < tokens
                \<and> 20 \<le> tokens - int (sum_list (take (nat n) ?flen))
                \<and> 20 \<le> tokens - int (sum_list (take (nat n) ?llen))
                \<and> n < int (length ?flen))"
    by blast
  have l: "local_batch_size self = Inr n"
    by (simp add: local_batch_size_def tk g)
  have over: "grow 100 [10, 95] [10, 95] 10 10 1 = Inr (105, 105, 2)"
    by (simp add: grow.simps py_index_def)
  from l r over show ?thesis by blast
qed

theorem token_budget_growth_witness:
  "batch_tokens_size ex_tokens = Some 100 \<and> 0 \<le> batch_size ex_tokens
   \<and> length (labels_len_buffer ex_tokens) = length (features_len_buffer ex_tokens)
   \<and> local_batch_size ex_tokens = Inr 2"
proof -
  have h: "batch_tokens_size ex_tokens = Some 100" "0 \<le> batch_size ex_tokens"
    "length (labels_len_buffer ex_tokens) = length (features_len_buffer ex_tokens)"
    by (simp_all add: ex_tokens_def)
  from token_budget_growth[OF h] obtain n where
    n: "local_batch_size ex_tokens = Inr n" by blast
  have "local_batch_size ex_tokens = Inr 2"
    by (simp add: local_batch_size_def ex_tokens_def py_take_def py_norm_def grow.simps py_index_def)
  with h n show ?thesis by simp
qed
section \<open>Which exceptions the batchers raise\<close>
















section \<open>The bucketing sorter\<close>

lemma gather_ok: "\<forall>i \<in> set idx. i < length xs \<Longrightarrow> gather xs idx = Inr (map (\<lambda>i. xs ! i) idx)"
  by (simp add: gather_def)

lemma gather_each_ok:
  "\<forall>ele \<in> set args. \<forall>i \<in> set idx. i < length ele
     \<Longrightarrow> gather_each args idx = Inr (map (\<lambda>ele. map (\<lambda>i. ele ! i) idx) args)"
  by (induction args) (simp_all add: gather_ok)

lemma mset_gather_perm:
  assumes "mset idx = mset [0..<length xs]"
  shows "mset (map (\<lambda>i. xs ! i) idx) = mset xs"
proof -
  have "mset (map (\<lambda>i. xs ! i) idx) = image_mset (\<lambda>i. xs ! i) (mset idx)" by simp
  also have "\<dots> = image_mset (\<lambda>i. xs ! i) (mset [0..<length xs])" by (simp only: assms)
  also have "\<dots> = mset (map (\<lambda>i. xs ! i) [0..<length xs])" by simp
  also have "\<dots> = mset xs" by (simp only: map_nth)
  finally show ?thesis .
qed

lemma zip_gather:
  "\<forall>i \<in> set idx. i < length xs \<and> i < length ys
     \<Longrightarrow> zip (map (\<lambda>i. xs ! i) idx) (map (\<lambda>i. ys ! i) idx) = map (\<lambda>i. zip xs ys ! i) idx"
  by (induction idx) simp_all

lemma perm_in_range:
  assumes "mset idx = mset [0..<n]"
  shows "\<forall>i \<in> set idx. i < n" and "length idx = n"
proof -
  from assms have "set idx = set [0..<n]" by (metis set_mset_mset)
  then show "\<forall>i \<in> set idx. i < n" by simp
  from assms have "size (mset idx) = size (mset [0..<n])" by simp
  then show "length idx = n" by simp
qed

text \<open>
  C4, as amended.  The bucketing sorter.  Whenever \<^verbatim>\<open>argsort\<close> returns, as NumPy
  documents it, a permutation of the positions of the keys along which the keys
  do not decrease, and every other list is as long as the pivot,
  \<^verbatim>\<open>do_bucketing\<close> raises nothing, returns the pivot rearranged by that
  permutation and in non-decreasing order of length, and every other list
  rearranged by the same permutation: the lists keep their lengths and their
  elements, and each element of another list stays beside the element of the
  pivot it stood beside.  The arguments are values and are not changed.  Which of
  two sequences of one length comes first is up to \<^verbatim>\<open>argsort\<close>.
\<close>

theorem do_bucketing_sorts:
  assumes perm: "mset (argsort (map length pivot)) = mset [0..<length pivot]"
    and srt: "sorted (map (\<lambda>i. map length pivot ! i) (argsort (map length pivot)))"
    and lens: "\<forall>ele \<in> set args. length ele = length pivot"
  shows "\<exists>pivot' args'. do_bucketing argsort pivot args = Inr (pivot', args')
           \<and> pivot' = map (\<lambda>i. pivot ! i) (argsort (map length pivot))
           \<and> args' = map (\<lambda>ele. map (\<lambda>i. ele ! i) (argsort (map length pivot))) args
           \<and> sorted (map length pivot')
           \<and> mset pivot' = mset pivot
           \<and> length pivot' = length pivot
           \<and> length args' = length args
           \<and> (\<forall>j<length args. length (args' ! j) = length (args ! j)
                  \<and> mset (zip pivot' (args' ! j)) = mset (zip pivot (args ! j)))"
proof -
  let ?tidx = "argsort (map length pivot)"
  let ?p = "map (\<lambda>i. pivot ! i) ?tidx"
  let ?a = "map (\<lambda>ele. map (\<lambda>i. ele ! i) ?tidx) args"
  note r = perm_in_range[OF perm]
  have g1: "gather pivot ?tidx = Inr ?p" using r(1) by (simp add: gather_ok)
  have g2: "gather_each args ?tidx = Inr ?a" using r(1) lens by (simp add: gather_each_ok)
  have res: "do_bucketing argsort pivot args = Inr (?p, ?a)"
    by (simp add: do_bucketing_def Let_def g1 g2)
  have e: "map length ?p = map (\<lambda>i. map length pivot ! i) ?tidx"
    using r(1) by (auto simp: comp_def)
  have s: "sorted (map length ?p)" unfolding e by (rule srt)
  have m: "mset ?p = mset pivot" by (rule mset_gather_perm[OF perm])
  have l: "length ?p = length pivot" using r(2) by simp
  have z: "\<forall>j<length args. length (?a ! j) = length (args ! j)
                  \<and> mset (zip ?p (?a ! j)) = mset (zip pivot (args ! j))"
  proof (intro allI impI)
    fix j assume j: "j < length args"
    then have le: "length (args ! j) = length pivot" using lens by simp
    have "zip ?p (?a ! j) = map (\<lambda>i. zip pivot (args ! j) ! i) ?tidx"
      using j r(1) le by (simp add: zip_gather)
    moreover have "mset (map (\<lambda>i. zip pivot (args ! j) ! i) ?tidx) = mset (zip pivot (args ! j))"
      using perm le by (intro mset_gather_perm) simp
    ultimately show "length (?a ! j) = length (args ! j)
                  \<and> mset (zip ?p (?a ! j)) = mset (zip pivot (args ! j))"
      using j r(2) le by simp
  qed
  from res s m l z show ?thesis by simp
qed

lemma ex_argsort: "npy_argsort (map length ex_pivot) = [1, 2, 0]"
  unfolding ex_pivot_def by code_simp

theorem do_bucketing_sorts_witness:
  "do_bucketing npy_argsort ex_pivot [ex_other] = Inr ([[8], [9, 9], [7, 7, 7]], [[[1], [2], [3]]])"
proof -
  have p: "mset (npy_argsort (map length ex_pivot)) = mset [0..<length ex_pivot]"
    unfolding ex_argsort by (simp add: ex_pivot_def upt_conv_Cons)
  have s: "sorted (map (\<lambda>i. map length ex_pivot ! i) (npy_argsort (map length ex_pivot)))"
    unfolding ex_argsort by (simp add: ex_pivot_def)
  have l: "\<forall>ele \<in> set [ex_other]. length ele = length ex_pivot"
    by (simp add: ex_pivot_def ex_other_def)
  from do_bucketing_sorts[of npy_argsort ex_pivot "[ex_other]", OF p s l] obtain pivot' args' where
    r: "do_bucketing npy_argsort ex_pivot [ex_other] = Inr (pivot', args')"
    and 1: "pivot' = map (\<lambda>i. ex_pivot ! i) (npy_argsort (map length ex_pivot))"
    and 2: "args' = map (\<lambda>ele. map (\<lambda>i. ele ! i) (npy_argsort (map length ex_pivot))) [ex_other]"
    by blast
  from 1 have "pivot' = [[8], [9, 9], [7, 7, 7]]"
    unfolding ex_argsort by (simp add: ex_pivot_def)
  moreover from 2 have "args' = [[[1], [2], [3]]]"
    unfolding ex_argsort by (simp add: ex_other_def)
  ultimately show ?thesis using r by simp
qed

text \<open>
  C4, as stated, fails: the permutation is not stable.  On eighteen sequences of
  length 1 the first partition step of NumPy's quicksort exchanges positions
  that hold equal keys, and \<^verbatim>\<open>do_bucketing\<close> returns the sequences 1 to 15 in
  reverse order.
\<close>

theorem do_bucketing_not_stable:
  "map length eighteen = replicate 18 1
   \<and> do_bucketing npy_argsort eighteen [eighteen]
       = Inr ([[0], [15], [14], [13], [12], [11], [10], [9], [8], [7], [6], [5], [4], [3], [2],
               [1], [16], [17]],
              [[[0], [15], [14], [13], [12], [11], [10], [9], [8], [7], [6], [5], [4], [3], [2],
                [1], [16], [17]]])"
proof -
  have k: "map length eighteen = replicate 18 1"
    by code_simp
  have a: "npy_argsort (replicate 18 1) = [0, 15, 14, 13, 12, 11, 10, 9, 8, 7, 6, 5, 4, 3, 2, 1, 16, 17]"
    by code_simp
  have "do_bucketing npy_argsort eighteen [eighteen]
       = Inr ([[0], [15], [14], [13], [12], [11], [10], [9], [8], [7], [6], [5], [4], [3], [2],
               [1], [16], [17]],
              [[[0], [15], [14], [13], [12], [11], [10], [9], [8], [7], [6], [5], [4], [3], [2],
                [1], [16], [17]]])"
    unfolding do_bucketing_def Let_def k a by (simp add: gather_def eighteen_def)
  with k show ?thesis by simp
qed
section \<open>The streaming iterator: resets, refills and the pairing invariant\<close>

lemma reader_reset_props:
  assumes "reader_reset sh given r = Inr (used, r')"
  shows "cursor r' = 0" "resets r' = Suc (resets r)" "closed r' = closed r"
    and "\<not> sh \<Longrightarrow> source r' = source r \<and> used = given"
    and "sh \<Longrightarrow> \<exists>idx. used = Some idx \<and> gather (source r) idx = Inr (source r')
                     \<and> (\<forall>g. given = Some g \<longrightarrow> idx = g)"
  using assms
  by (auto simp: reader_reset_def Let_def split: if_splits prod.splits sum.splits option.splits list.splits)

lemma reader_reset_plain: "reader_reset False given r = Inr (given, r\<lparr>cursor := 0, resets := Suc (resets r)\<rparr>)"
  by (simp add: reader_reset_def)

lemma reset_readers_props:
  assumes "reset_readers self = Inr self'"
  shows "self' = self\<lparr>features_reader := features_reader self', labels_reader := labels_reader self'\<rparr>"
    and "cursor (features_reader self') = 0" "cursor (labels_reader self') = 0"
    and "resets (features_reader self') = Suc (resets (features_reader self))"
    and "resets (labels_reader self') = Suc (resets (labels_reader self))"
    and "\<not> truthy (shuffle_every_epoch self) \<Longrightarrow>
           source (features_reader self') = source (features_reader self)
         \<and> source (labels_reader self') = source (labels_reader self)"
    and "truthy (shuffle_every_epoch self) \<Longrightarrow>
           \<exists>idx. gather (source (features_reader self)) idx = Inr (source (features_reader self'))
               \<and> gather (source (labels_reader self)) idx = Inr (source (labels_reader self'))"
proof -
  from assms obtain used fr used' lr where
    f: "reader_reset (truthy (shuffle_every_epoch self)) None (features_reader self) = Inr (used, fr)"
    and l: "reader_reset (truthy (shuffle_every_epoch self)) used (labels_reader self) = Inr (used', lr)"
    and s: "self' = self\<lparr>features_reader := fr, labels_reader := lr\<rparr>"
    by (auto simp: reset_readers_def split: sum.splits prod.splits)
  from s show "self' = self\<lparr>features_reader := features_reader self', labels_reader := labels_reader self'\<rparr>"
    by simp
  from s reader_reset_props(1,2)[OF f] reader_reset_props(1,2)[OF l]
  show "cursor (features_reader self') = 0" "cursor (labels_reader self') = 0"
    "resets (features_reader self') = Suc (resets (features_reader self))"
    "resets (labels_reader self') = Suc (resets (labels_reader self))"
    by simp_all
  show "source (features_reader self') = source (features_reader self)
         \<and> source (labels_reader self') = source (labels_reader self)"
    if "\<not> truthy (shuffle_every_epoch self)"
    using that s reader_reset_props(4)[OF f] reader_reset_props(4)[OF l] by simp
  show "\<exists>idx. gather (source (features_reader self)) idx = Inr (source (features_reader self'))
               \<and> gather (source (labels_reader self)) idx = Inr (source (labels_reader self'))"
    if t: "truthy (shuffle_every_epoch self)"
  proof -
    from reader_reset_props(5)[OF f t] obtain idx where
      i: "used = Some idx" "gather (source (features_reader self)) idx = Inr (source fr)" by blast
    from reader_reset_props(5)[OF l t] i(1) have "gather (source (labels_reader self)) idx = Inr (source lr)"
      by auto
    with i s show ?thesis by auto
  qed
qed

lemma reset_readers_plain:
  "\<not> truthy (shuffle_every_epoch self) \<Longrightarrow> \<exists>self'. reset_readers self = Inr self'"
  by (simp add: reset_readers_def reader_reset_plain)

lemma stop_epoch_props:
  assumes "stop_epoch self = Inr (out, self')"
  shows "out = StopIteration" "\<not> end_of_data self'"
    and "features_buffer self' = features_buffer self" "labels_buffer self' = labels_buffer self"
    and "features_len_buffer self' = features_len_buffer self"
    and "labels_len_buffer self' = labels_len_buffer self"
    and "cursor (features_reader self') = 0" "cursor (labels_reader self') = 0"
    and "resets (features_reader self') = Suc (resets (features_reader self))"
    and "resets (labels_reader self') = Suc (resets (labels_reader self))"
proof -
  from assms obtain s where r: "reset_readers (self\<lparr>end_of_data := False\<rparr>) = Inr s"
    and o: "out = StopIteration" "self' = s"
    by (auto simp: stop_epoch_def split: sum.splits)
  note p = reset_readers_props[OF r]
  show "out = StopIteration" by (rule o)
  have e: "self' = self\<lparr>end_of_data := False, features_reader := features_reader self',
                         labels_reader := labels_reader self'\<rparr>"
    using p(1) o(2) by simp
  show "\<not> end_of_data self'" by (subst e) simp
  show "features_buffer self' = features_buffer self" by (subst e) simp
  show "labels_buffer self' = labels_buffer self" by (subst e) simp
  show "features_len_buffer self' = features_len_buffer self" by (subst e) simp
  show "labels_len_buffer self' = labels_len_buffer self" by (subst e) simp
  from p o show "cursor (features_reader self') = 0" "cursor (labels_reader self') = 0"
    "resets (features_reader self') = Suc (resets (features_reader self))"
    "resets (labels_reader self') = Suc (resets (labels_reader self))"
    by simp_all
qed

lemma ahead_Nil: "\<not> cursor r < length (source r) \<Longrightarrow> ahead r = []"
  by (simp add: ahead_def)

lemma ahead_Cons:
  "cursor r < length (source r) \<Longrightarrow> ahead r = source r ! cursor r # ahead (r\<lparr>cursor := Suc (cursor r)\<rparr>)"
  by (simp add: ahead_def Cons_nth_drop_Suc)

lemma refill_done: "\<not> cnt < csize \<Longrightarrow> refill cnt csize fr lr fb lb = (fr, lr, fb, lb)"
  by (subst refill.simps) simp

lemma refill_eos_f:
  "cnt < csize \<Longrightarrow> \<not> cursor fr < length (source fr)
     \<Longrightarrow> refill cnt csize fr lr fb lb = (fr, snd (reader_next lr), fb, lb)"
  by (subst refill.simps) (simp add: reader_next_def split: prod.splits)

lemma refill_eos_l:
  "cnt < csize \<Longrightarrow> cursor fr < length (source fr) \<Longrightarrow> \<not> cursor lr < length (source lr)
     \<Longrightarrow> refill cnt csize fr lr fb lb = (fr\<lparr>cursor := Suc (cursor fr)\<rparr>, lr, fb, lb)"
  by (subst refill.simps) (simp add: reader_next_def split: prod.splits)

lemma refill_pair:
  "cnt < csize \<Longrightarrow> cursor fr < length (source fr) \<Longrightarrow> cursor lr < length (source lr)
     \<Longrightarrow> source fr ! cursor fr = Some s \<Longrightarrow> source lr ! cursor lr = Some t
     \<Longrightarrow> refill cnt csize fr lr fb lb
         = refill (cnt + 1) csize (fr\<lparr>cursor := Suc (cursor fr)\<rparr>) (lr\<lparr>cursor := Suc (cursor lr)\<rparr>)
             (fb @ [s]) (lb @ [t])"
  by (subst refill.simps) (simp add: reader_next_def)

lemma refill_skip:
  "cnt < csize \<Longrightarrow> cursor fr < length (source fr) \<Longrightarrow> cursor lr < length (source lr)
     \<Longrightarrow> source fr ! cursor fr = None \<or> source lr ! cursor lr = None
     \<Longrightarrow> refill cnt csize fr lr fb lb
         = refill cnt csize (fr\<lparr>cursor := Suc (cursor fr)\<rparr>) (lr\<lparr>cursor := Suc (cursor lr)\<rparr>) fb lb"
  by (subst refill.simps) (auto simp: reader_next_def split: option.splits)

lemma set_zip_drop_Suc:
  "set (zip (drop (Suc i) xs) (drop (Suc j) ys)) \<subseteq> set (zip (drop i xs) (drop j ys))"
proof (cases "i < length xs \<and> j < length ys")
  case True
  then have "zip (drop i xs) (drop j ys) = (xs ! i, ys ! j) # zip (drop (Suc i) xs) (drop (Suc j) ys)"
    by (simp add: Cons_nth_drop_Suc[symmetric])
  then show ?thesis by auto
next
  case False
  then have "drop (Suc i) xs = [] \<or> drop (Suc j) ys = []" by auto
  then show ?thesis by auto
qed

lemma refill_char:
  "\<exists>fr' lr'. refill cnt csize fr lr fb lb
        = (fr', lr',
           fb @ map fst (take (nat (csize - cnt)) (complete_pairs (zip (ahead fr) (ahead lr)))),
           lb @ map snd (take (nat (csize - cnt)) (complete_pairs (zip (ahead fr) (ahead lr)))))
     \<and> fr' = fr\<lparr>cursor := cursor fr'\<rparr> \<and> lr' = lr\<lparr>cursor := cursor lr'\<rparr>
     \<and> set (zip (ahead fr') (ahead lr')) \<subseteq> set (zip (ahead fr) (ahead lr))"
proof (induction "length (source fr) - cursor fr" arbitrary: cnt fr lr fb lb rule: less_induct)
  case less
  show ?case
  proof (cases "cnt < csize")
    case False
    then show ?thesis by (simp add: refill_done)
  next
    case c: True
    then have n: "nat (csize - cnt) = Suc (nat (csize - (cnt + 1)))" by simp
    show ?thesis
    proof (cases "cursor fr < length (source fr)")
      case False
      with c show ?thesis
        by (auto simp: refill_eos_f ahead_Nil reader_next_def)
    next
      case f: True
      show ?thesis
      proof (cases "cursor lr < length (source lr)")
        case False
        with c f show ?thesis
          by (auto simp: refill_eos_l ahead_Nil)
      next
        case l: True
        let ?fr = "fr\<lparr>cursor := Suc (cursor fr)\<rparr>" and ?lr = "lr\<lparr>cursor := Suc (cursor lr)\<rparr>"
        have m: "length (source ?fr) - cursor ?fr < length (source fr) - cursor fr"
          using f by simp
        have sub: "set (zip (ahead ?fr) (ahead ?lr)) \<subseteq> set (zip (ahead fr) (ahead lr))"
          by (simp add: ahead_def set_zip_drop_Suc)
        show ?thesis
        proof (cases "\<exists>s t. source fr ! cursor fr = Some s \<and> source lr ! cursor lr = Some t")
          case True
          then obtain s t where st: "source fr ! cursor fr = Some s" "source lr ! cursor lr = Some t"
            by blast
          from less[OF m, of "cnt + 1" ?lr "fb @ [s]" "lb @ [t]"] obtain fr' lr' where
            r: "refill (cnt + 1) csize ?fr ?lr (fb @ [s]) (lb @ [t])
                 = (fr', lr',
                    (fb @ [s]) @ map fst (take (nat (csize - (cnt + 1))) (complete_pairs (zip (ahead ?fr) (ahead ?lr)))),
                    (lb @ [t]) @ map snd (take (nat (csize - (cnt + 1))) (complete_pairs (zip (ahead ?fr) (ahead ?lr)))))"
            and e: "fr' = ?fr\<lparr>cursor := cursor fr'\<rparr>" "lr' = ?lr\<lparr>cursor := cursor lr'\<rparr>"
            and z: "set (zip (ahead fr') (ahead lr')) \<subseteq> set (zip (ahead ?fr) (ahead ?lr))"
            by blast
          have "refill cnt csize fr lr fb lb
                 = (fr', lr',
                    fb @ map fst (take (nat (csize - cnt)) (complete_pairs (zip (ahead fr) (ahead lr)))),
                    lb @ map snd (take (nat (csize - cnt)) (complete_pairs (zip (ahead fr) (ahead lr)))))"
            using r by (simp add: refill_pair[OF c f l st] ahead_Cons[OF f] ahead_Cons[OF l] st n)
          moreover have "fr' = fr\<lparr>cursor := cursor fr'\<rparr>" "lr' = lr\<lparr>cursor := cursor lr'\<rparr>"
            using e by (metis reader.update_convs(2) reader.surjective)+
          ultimately show ?thesis using z sub by blast
        next
          case False
          then have sk: "source fr ! cursor fr = None \<or> source lr ! cursor lr = None" by auto
          from less[OF m, of cnt ?lr fb lb] obtain fr' lr' where
            r: "refill cnt csize ?fr ?lr fb lb
                 = (fr', lr',
                    fb @ map fst (take (nat (csize - cnt)) (complete_pairs (zip (ahead ?fr) (ahead ?lr)))),
                    lb @ map snd (take (nat (csize - cnt)) (complete_pairs (zip (ahead ?fr) (ahead ?lr)))))"
            and e: "fr' = ?fr\<lparr>cursor := cursor fr'\<rparr>" "lr' = ?lr\<lparr>cursor := cursor lr'\<rparr>"
            and z: "set (zip (ahead fr') (ahead lr')) \<subseteq> set (zip (ahead ?fr) (ahead ?lr))"
            by blast
          have cp: "complete_pairs (zip (ahead fr) (ahead lr)) = complete_pairs (zip (ahead ?fr) (ahead ?lr))"
            using sk by (cases "source fr ! cursor fr"; cases "source lr ! cursor lr")
              (auto simp: ahead_Cons[OF f] ahead_Cons[OF l])
          have "refill cnt csize fr lr fb lb
                 = (fr', lr',
                    fb @ map fst (take (nat (csize - cnt)) (complete_pairs (zip (ahead fr) (ahead lr)))),
                    lb @ map snd (take (nat (csize - cnt)) (complete_pairs (zip (ahead fr) (ahead lr)))))"
            using r by (simp add: refill_skip[OF c f l sk] cp)
          moreover have "fr' = fr\<lparr>cursor := cursor fr'\<rparr>" "lr' = lr\<lparr>cursor := cursor lr'\<rparr>"
            using e by (metis reader.update_convs(2) reader.surjective)+
          ultimately show ?thesis using z sub by blast
        qed
      qed
    qed
  qed
qed
lemma drain_pairs_pair:
  "cursor fr < length (source fr) \<Longrightarrow> cursor lr < length (source lr)
     \<Longrightarrow> source fr ! cursor fr = Some s \<Longrightarrow> source lr ! cursor lr = Some t
     \<Longrightarrow> drain_pairs fr lr sb tb
         = drain_pairs (fr\<lparr>cursor := Suc (cursor fr)\<rparr>) (lr\<lparr>cursor := Suc (cursor lr)\<rparr>)
             (sb @ [s]) (tb @ [t])"
  by (subst drain_pairs.simps) (simp add: reader_next_def)

lemma drain_pairs_skip:
  "cursor fr < length (source fr) \<Longrightarrow> cursor lr < length (source lr)
     \<Longrightarrow> source fr ! cursor fr = None \<or> source lr ! cursor lr = None
     \<Longrightarrow> drain_pairs fr lr sb tb
         = drain_pairs (fr\<lparr>cursor := Suc (cursor fr)\<rparr>) (lr\<lparr>cursor := Suc (cursor lr)\<rparr>) sb tb"
  by (subst drain_pairs.simps) (auto simp: reader_next_def split: option.splits)

lemma drain_pairs_char:
  "\<exists>fr' lr'. drain_pairs fr lr sb tb
        = (fr', lr',
           sb @ map fst (complete_pairs (zip (ahead fr) (ahead lr))),
           tb @ map snd (complete_pairs (zip (ahead fr) (ahead lr))))
     \<and> fr' = fr\<lparr>cursor := cursor fr'\<rparr> \<and> lr' = lr\<lparr>cursor := cursor lr'\<rparr>"
proof (induction "length (source fr) - cursor fr" arbitrary: fr lr sb tb rule: less_induct)
  case less
  show ?case
  proof (cases "cursor fr < length (source fr) \<and> cursor lr < length (source lr)")
    case False
    then have z: "zip (ahead fr) (ahead lr) = []"
      by (auto simp: ahead_def)
    from False have "drain_pairs fr lr sb tb = (snd (reader_next fr), snd (reader_next lr), sb, tb)"
      by (subst drain_pairs.simps) (auto simp: reader_next_def split: prod.splits)
    then show ?thesis
      by (auto simp: z reader_next_def)
  next
    case True
    then have f: "cursor fr < length (source fr)" and l: "cursor lr < length (source lr)" by auto
    let ?fr = "fr\<lparr>cursor := Suc (cursor fr)\<rparr>" and ?lr = "lr\<lparr>cursor := Suc (cursor lr)\<rparr>"
    have m: "length (source ?fr) - cursor ?fr < length (source fr) - cursor fr"
      using f by simp
    show ?thesis
    proof (cases "\<exists>s t. source fr ! cursor fr = Some s \<and> source lr ! cursor lr = Some t")
      case True
      then obtain s t where st: "source fr ! cursor fr = Some s" "source lr ! cursor lr = Some t"
        by blast
      from less[OF m, of ?lr "sb @ [s]" "tb @ [t]"] obtain fr' lr' where
        r: "drain_pairs ?fr ?lr (sb @ [s]) (tb @ [t])
             = (fr', lr',
                (sb @ [s]) @ map fst (complete_pairs (zip (ahead ?fr) (ahead ?lr))),
                (tb @ [t]) @ map snd (complete_pairs (zip (ahead ?fr) (ahead ?lr))))"
        and e: "fr' = ?fr\<lparr>cursor := cursor fr'\<rparr>" "lr' = ?lr\<lparr>cursor := cursor lr'\<rparr>"
        by blast
      have "drain_pairs fr lr sb tb
             = (fr', lr',
                sb @ map fst (complete_pairs (zip (ahead fr) (ahead lr))),
                tb @ map snd (complete_pairs (zip (ahead fr) (ahead lr))))"
        using r by (simp add: drain_pairs_pair[OF f l st] ahead_Cons[OF f] ahead_Cons[OF l] st)
      moreover have "fr' = fr\<lparr>cursor := cursor fr'\<rparr>" "lr' = lr\<lparr>cursor := cursor lr'\<rparr>"
        using e by (metis reader.update_convs(2) reader.surjective)+
      ultimately show ?thesis by blast
    next
      case False
      then have sk: "source fr ! cursor fr = None \<or> source lr ! cursor lr = None" by auto
      from less[OF m, of ?lr sb tb] obtain fr' lr' where
        r: "drain_pairs ?fr ?lr sb tb
             = (fr', lr',
                sb @ map fst (complete_pairs (zip (ahead ?fr) (ahead ?lr))),
                tb @ map snd (complete_pairs (zip (ahead ?fr) (ahead ?lr))))"
        and e: "fr' = ?fr\<lparr>cursor := cursor fr'\<rparr>" "lr' = ?lr\<lparr>cursor := cursor lr'\<rparr>"
        by blast
      have cp: "complete_pairs (zip (ahead fr) (ahead lr)) = complete_pairs (zip (ahead ?fr) (ahead ?lr))"
        using sk by (cases "source fr ! cursor fr"; cases "source lr ! cursor lr")
          (auto simp: ahead_Cons[OF f] ahead_Cons[OF l])
      have "drain_pairs fr lr sb tb
             = (fr', lr',
                sb @ map fst (complete_pairs (zip (ahead fr) (ahead lr))),
                tb @ map snd (complete_pairs (zip (ahead fr) (ahead lr))))"
        using r by (simp add: drain_pairs_skip[OF f l sk] cp)
      moreover have "fr' = fr\<lparr>cursor := cursor fr'\<rparr>" "lr' = lr\<lparr>cursor := cursor lr'\<rparr>"
        using e by (metis reader.update_convs(2) reader.surjective)+
      ultimately show ?thesis by blast
    qed
  qed
qed

lemma complete_pairs_set: "(s, t) \<in> set (complete_pairs z) \<Longrightarrow> (Some s, Some t) \<in> set z"
  by (induction z rule: complete_pairs.induct) auto

lemma complete_pairs_zip:
  "set (zip (map Some (map fst (take k (complete_pairs z)))) (map Some (map snd (take k (complete_pairs z)))))
     \<subseteq> set z"
proof
  fix x assume "x \<in> set (zip (map Some (map fst (take k (complete_pairs z))))
                              (map Some (map snd (take k (complete_pairs z)))))"
  then obtain i where i: "i < length (take k (complete_pairs z))"
    and x: "x = (Some (fst (take k (complete_pairs z) ! i)), Some (snd (take k (complete_pairs z) ! i)))"
    by (auto simp: set_zip)
  from i have "take k (complete_pairs z) ! i \<in> set (complete_pairs z)"
    by (meson in_set_takeD nth_mem)
  then have "(fst (take k (complete_pairs z) ! i), snd (take k (complete_pairs z) ! i)) \<in> set (complete_pairs z)"
    by simp
  from complete_pairs_set[OF this] x show "x \<in> set z" by simp
qed

lemma zip_append_same:
  "length a = length b \<Longrightarrow> zip (map Some (a @ c)) (map Some (b @ d))
     = zip (map Some a) (map Some b) @ zip (map Some c) (map Some d)"
  by simp
lemma gather_zip_subset:
  assumes "gather xs idx = Inr xs'" and "gather ys idx = Inr ys'"
  shows "set (zip xs' ys') \<subseteq> set (zip xs ys)" and "length xs' = length ys'"
proof -
  from assms have r: "\<forall>i \<in> set idx. i < length xs \<and> i < length ys"
    and x: "xs' = map (\<lambda>i. xs ! i) idx" and y: "ys' = map (\<lambda>i. ys ! i) idx"
    by (auto simp: gather_def split: if_splits)
  have "zip xs' ys' = map (\<lambda>i. zip xs ys ! i) idx"
    unfolding x y using r by (rule zip_gather)
  moreover have "\<forall>i \<in> set idx. zip xs ys ! i \<in> set (zip xs ys)"
    using r by (auto simp: set_zip)
  ultimately show "set (zip xs' ys') \<subseteq> set (zip xs ys)" by auto
  show "length xs' = length ys'" by (simp add: x y)
qed

lemma inv_reset:
  assumes inv: "pairing_inv P self" and r: "reset_readers self = Inr self'"
  shows "pairing_inv P self'"
proof -
  note p = reset_readers_props[OF r]
  have src: "set (zip (source (features_reader self')) (source (labels_reader self')))
               \<subseteq> set (zip (source (features_reader self)) (source (labels_reader self)))"
  proof (cases "truthy (shuffle_every_epoch self)")
    case True
    from p(7)[OF True] obtain idx where
      "gather (source (features_reader self)) idx = Inr (source (features_reader self'))"
      "gather (source (labels_reader self)) idx = Inr (source (labels_reader self'))" by blast
    then show ?thesis by (rule gather_zip_subset)
  next
    case False
    from p(6)[OF False] show ?thesis by simp
  qed
  have ah: "ahead (features_reader self') = source (features_reader self')"
    "ahead (labels_reader self') = source (labels_reader self')"
    using p(2,3) by (simp_all add: ahead_def)
  have b: "features_buffer self' = features_buffer self" "labels_buffer self' = labels_buffer self"
    "features_len_buffer self' = features_len_buffer self" "labels_len_buffer self' = labels_len_buffer self"
    by (subst p(1), simp)+
  from inv src show ?thesis
    unfolding pairing_inv_def ah b by blast
qed

lemma inv_end_of_data: "pairing_inv P (self\<lparr>end_of_data := b\<rparr>) = pairing_inv P self"
  by (simp add: pairing_inv_def)

lemma inv_stop:
  assumes "pairing_inv P self" and "stop_epoch self = Inr (out, self')"
  shows "pairing_inv P self'" and "out = StopIteration"
proof -
  from assms(2) obtain s where r: "reset_readers (self\<lparr>end_of_data := False\<rparr>) = Inr s"
    and o: "out = StopIteration" "self' = s"
    by (auto simp: stop_epoch_def split: sum.splits)
  from inv_reset[OF _ r] assms(1) o show "pairing_inv P self'" by (simp add: inv_end_of_data)
  show "out = StopIteration" by (rule o)
qed

lemma refill_buffers_props:
  assumes inv: "pairing_inv P self"
  shows "set (zip (source (features_reader (refill_buffers self)))
                  (source (labels_reader (refill_buffers self)))) \<subseteq> P"
    and "set (zip (ahead (features_reader (refill_buffers self)))
                  (ahead (labels_reader (refill_buffers self)))) \<subseteq> P"
    and "set (zip (map Some (features_buffer (refill_buffers self)))
                  (map Some (labels_buffer (refill_buffers self)))) \<subseteq> P"
    and "length (features_buffer (refill_buffers self)) = length (labels_buffer (refill_buffers self))"
    and "features_buffer (refill_buffers self) = [] \<Longrightarrow>
           features_len_buffer (refill_buffers self) = [] \<and> labels_len_buffer (refill_buffers self) = []"
proof -
  let ?z = "zip (ahead (features_reader self)) (ahead (labels_reader self))"
  let ?X = "take (nat (cache_size self - int (length (features_buffer self)))) (complete_pairs ?z)"
  from refill_char[of "int (length (features_buffer self))" "cache_size self"
      "features_reader self" "labels_reader self" "features_buffer self" "labels_buffer self"]
  obtain fr' lr' where
    r: "refill (int (length (features_buffer self))) (cache_size self)
          (features_reader self) (labels_reader self) (features_buffer self) (labels_buffer self)
        = (fr', lr', features_buffer self @ map fst ?X, labels_buffer self @ map snd ?X)"
    and e: "fr' = (features_reader self)\<lparr>cursor := cursor fr'\<rparr>"
           "lr' = (labels_reader self)\<lparr>cursor := cursor lr'\<rparr>"
    and z: "set (zip (ahead fr') (ahead lr')) \<subseteq> set ?z"
    by blast
  have s: "refill_buffers self
             = self\<lparr>features_reader := fr', labels_reader := lr',
                    features_buffer := features_buffer self @ map fst ?X,
                    labels_buffer := labels_buffer self @ map snd ?X\<rparr>"
    by (simp add: refill_buffers_def r)
  have src: "source fr' = source (features_reader self)" "source lr' = source (labels_reader self)"
    by (subst e, simp)+
  from inv have i: "set (zip (source (features_reader self)) (source (labels_reader self))) \<subseteq> P"
    "set ?z \<subseteq> P"
    "set (zip (map Some (features_buffer self)) (map Some (labels_buffer self))) \<subseteq> P"
    "length (features_buffer self) = length (labels_buffer self)"
    "features_len_buffer self = map length (features_buffer self)"
    "labels_len_buffer self = map length (labels_buffer self)"
    by (simp_all add: pairing_inv_def)
  show "set (zip (source (features_reader (refill_buffers self)))
                  (source (labels_reader (refill_buffers self)))) \<subseteq> P"
    using i(1) by (simp add: s src)
  show "set (zip (ahead (features_reader (refill_buffers self)))
                  (ahead (labels_reader (refill_buffers self)))) \<subseteq> P"
    using i(2) z by (simp add: s)
  have "set (zip (map Some (map fst ?X)) (map Some (map snd ?X))) \<subseteq> P"
    using complete_pairs_zip[of _ ?z] i(2) by blast
  then show "set (zip (map Some (features_buffer (refill_buffers self)))
                  (map Some (labels_buffer (refill_buffers self)))) \<subseteq> P"
    using i(3,4) by (simp add: s)
  show "length (features_buffer (refill_buffers self)) = length (labels_buffer (refill_buffers self))"
    using i(4) by (simp add: s)
  show "features_len_buffer (refill_buffers self) = [] \<and> labels_len_buffer (refill_buffers self) = []"
    if "features_buffer (refill_buffers self) = []"
    using that i(4,5,6) by (simp add: s)
qed

lemma refill_buffers_frame:
  "end_of_data (refill_buffers self) = end_of_data self"
  "batch_size (refill_buffers self) = batch_size self"
  "fill_full_batch (refill_buffers self) = fill_full_batch self"
  "batch_tokens_size (refill_buffers self) = batch_tokens_size self"
  "shuffle_every_epoch (refill_buffers self) = shuffle_every_epoch self"
  "resets (features_reader (refill_buffers self)) = resets (features_reader self)"
  "resets (labels_reader (refill_buffers self)) = resets (labels_reader self)"
proof -
  from refill_char[of "int (length (features_buffer self))" "cache_size self"
      "features_reader self" "labels_reader self" "features_buffer self" "labels_buffer self"]
  obtain fr' lr' fb' lb' where
    r: "refill (int (length (features_buffer self))) (cache_size self)
          (features_reader self) (labels_reader self) (features_buffer self) (labels_buffer self)
        = (fr', lr', fb', lb')"
    and e: "fr' = (features_reader self)\<lparr>cursor := cursor fr'\<rparr>"
           "lr' = (labels_reader self)\<lparr>cursor := cursor lr'\<rparr>"
    by blast
  have s: "refill_buffers self
             = self\<lparr>features_reader := fr', labels_reader := lr',
                    features_buffer := fb', labels_buffer := lb'\<rparr>"
    by (simp add: refill_buffers_def r)
  have "resets fr' = resets (features_reader self)" "resets lr' = resets (labels_reader self)"
    by (subst e, simp)+
  then show "end_of_data (refill_buffers self) = end_of_data self"
    "batch_size (refill_buffers self) = batch_size self"
    "fill_full_batch (refill_buffers self) = fill_full_batch self"
    "batch_tokens_size (refill_buffers self) = batch_tokens_size self"
    "shuffle_every_epoch (refill_buffers self) = shuffle_every_epoch self"
    "resets (features_reader (refill_buffers self)) = resets (features_reader self)"
    "resets (labels_reader (refill_buffers self)) = resets (labels_reader self)"
    by (simp_all add: s)
qed
lemma gather_map: "gather xs idx = Inr xs' \<Longrightarrow> gather (map f xs) idx = Inr (map f xs')"
  by (auto simp: gather_def split: if_splits)

lemma bucket_buffers_props:
  assumes b: "bucket_buffers argsort self = Inr s2"
  shows "set (zip (map Some (features_buffer s2)) (map Some (labels_buffer s2)))
           \<subseteq> set (zip (map Some (features_buffer self)) (map Some (labels_buffer self)))"
    and "length (features_buffer self) = length (labels_buffer self)
           \<Longrightarrow> length (features_buffer s2) = length (labels_buffer s2)"
    and "features_len_buffer s2 = map length (features_buffer s2)"
    and "labels_len_buffer s2 = map length (labels_buffer s2)"
    and "s2 = self\<lparr>features_buffer := features_buffer s2, labels_buffer := labels_buffer s2,
                   features_len_buffer := features_len_buffer s2,
                   labels_len_buffer := labels_len_buffer s2\<rparr>"
    and "\<not> bucketing self \<Longrightarrow> features_buffer s2 = features_buffer self \<and> labels_buffer s2 = labels_buffer self"
proof -
  show "features_len_buffer s2 = map length (features_buffer s2)"
    "labels_len_buffer s2 = map length (labels_buffer s2)"
    "s2 = self\<lparr>features_buffer := features_buffer s2, labels_buffer := labels_buffer s2,
                   features_len_buffer := features_len_buffer s2,
                   labels_len_buffer := labels_len_buffer s2\<rparr>"
    using b
    by (auto simp: bucket_buffers_def split: if_splits sum.splits prod.splits list.splits)
  show "features_buffer s2 = features_buffer self \<and> labels_buffer s2 = labels_buffer self"
    if "\<not> bucketing self"
    using b that by (auto simp: bucket_buffers_def)
  show "set (zip (map Some (features_buffer s2)) (map Some (labels_buffer s2)))
           \<subseteq> set (zip (map Some (features_buffer self)) (map Some (labels_buffer self)))"
    and "length (features_buffer self) = length (labels_buffer self)
           \<Longrightarrow> length (features_buffer s2) = length (labels_buffer s2)"
  proof -
    show "set (zip (map Some (features_buffer s2)) (map Some (labels_buffer s2)))
           \<subseteq> set (zip (map Some (features_buffer self)) (map Some (labels_buffer self)))"
    proof (cases "bucketing self")
      case False
      with b show ?thesis by (auto simp: bucket_buffers_def)
    next
      case True
      let ?tidx = "argsort (map length (labels_buffer self))"
      from b True have
        "gather (labels_buffer self) ?tidx = Inr (labels_buffer s2)"
        "gather (features_buffer self) ?tidx = Inr (features_buffer s2)"
        by (auto simp: bucket_buffers_def do_bucketing_def Let_def
                 split: if_splits sum.splits prod.splits list.splits)
      then have "gather (map Some (features_buffer self)) ?tidx = Inr (map Some (features_buffer s2))"
        "gather (map Some (labels_buffer self)) ?tidx = Inr (map Some (labels_buffer s2))"
        by (simp_all add: gather_map)
      then show ?thesis by (rule gather_zip_subset)
    qed
    show "length (features_buffer s2) = length (labels_buffer s2)"
      if "length (features_buffer self) = length (labels_buffer self)"
    proof (cases "bucketing self")
      case False
      with b that show ?thesis by (auto simp: bucket_buffers_def)
    next
      case True
      let ?tidx = "argsort (map length (labels_buffer self))"
      from b True have
        "gather (features_buffer self) ?tidx = Inr (features_buffer s2)"
        "gather (labels_buffer self) ?tidx = Inr (labels_buffer s2)"
        by (auto simp: bucket_buffers_def do_bucketing_def Let_def
                 split: if_splits sum.splits prod.splits list.splits)
      then show ?thesis by (rule gather_zip_subset(2))
    qed
  qed
qed



lemma pack_pair_ids:
  assumes "pack_pair self fs features labels = Inr dat"
  shows "ids dat (concat_name FEATURE_NAME_PREFIX IDS_NAME) = Some features"
    and "ids dat (concat_name LABEL_NAME_PREFIX IDS_NAME) = Some labels"
proof -
  from assms obtain d1 where
    1: "map_fn fs FEATURE_NAME_PREFIX features (features_padding_id self) empty_data = Inr d1"
    and 2: "map_fn fs LABEL_NAME_PREFIX labels (labels_padding_id self) d1 = Inr dat"
    by (auto simp: pack_pair_def split: sum.splits)
  from map_fn_parallels(3)[OF 1] map_fn_parallels(3)[OF 2]
  show "ids dat (concat_name FEATURE_NAME_PREFIX IDS_NAME) = Some features"
    and "ids dat (concat_name LABEL_NAME_PREFIX IDS_NAME) = Some labels"
    by (simp_all add: concat_name_def)
qed

lemma pop_parallels_ids: "pop_parallels d = Inr d' \<Longrightarrow> ids d' = ids d"
  by (auto simp: pop_parallels_def split: option.splits)

text \<open>The three ways in which \<open>emit\<close> returns.\<close>

lemma emit_cases:
  assumes "emit self = Inr (out, self')"
  obtains
    (short) "fill_full_batch self" "int (length (features_buffer self)) < batch_size self"
      "stop_epoch self = Inr (out, self')"
  | (empty) n features labels s1 where
      "\<not> (fill_full_batch self \<and> int (length (features_buffer self)) < batch_size self)"
      "local_batch_size self = Inr n" "take_batch self n = (features, labels, s1)"
      "features = [] \<or> labels = []" "stop_epoch s1 = Inr (out, self')"
  | (batch) n features labels dat where
      "\<not> (fill_full_batch self \<and> int (length (features_buffer self)) < batch_size self)"
      "local_batch_size self = Inr n" "take_batch self n = (features, labels, self')"
      "features \<noteq> []" "labels \<noteq> []" "out = Batch dat"
      "ids dat (concat_name FEATURE_NAME_PREFIX IDS_NAME) = Some features"
      "ids dat (concat_name LABEL_NAME_PREFIX IDS_NAME) = Some labels"
proof (cases "fill_full_batch self \<and> int (length (features_buffer self)) < batch_size self")
  case True
  with assms show ?thesis by (intro short) (auto simp: emit_def)
next
  case False
  with assms obtain n where n: "local_batch_size self = Inr n"
    by (auto simp: emit_def split: sum.splits)
  obtain features labels s1 where t: "take_batch self n = (features, labels, s1)"
    by (cases "take_batch self n")
  show ?thesis
  proof (cases "features = [] \<or> labels = []")
    case True
    with assms False n t have "stop_epoch s1 = Inr (out, self')"
      by (auto simp: emit_def)
    with False n t True show ?thesis by (rule empty)
  next
    case ne: False
    with assms False n t obtain ret where
      p: "pack_pair s1 (input_fields s1) features labels = Inr ret"
      by (auto simp: emit_def split: sum.splits)
    from assms False n t ne p obtain dat where
      o: "out = Batch dat" "self' = s1" and i: "ids dat = ids ret"
      by (auto simp: emit_def split: if_splits sum.splits dest: pop_parallels_ids)
    from pack_pair_ids[OF p] i o t False n ne show ?thesis
      by (intro batch[of n features labels dat]) auto
  qed
qed
lemma take_batch_props:
  assumes t: "take_batch self n = (features, labels, s1)"
    and len: "length (features_buffer self) = length (labels_buffer self)"
  shows "features = take (py_norm (length (features_buffer self)) n) (features_buffer self)"
    and "labels = take (py_norm (length (features_buffer self)) n) (labels_buffer self)"
    and "s1 = self\<lparr>features_buffer := features_buffer s1, labels_buffer := labels_buffer s1,
                   features_len_buffer := features_len_buffer s1,
                   labels_len_buffer := labels_len_buffer s1\<rparr>"
    and "(features_buffer s1 = [] \<and> labels_buffer s1 = []
          \<and> features_len_buffer s1 = [] \<and> labels_len_buffer s1 = [])
       \<or> (features_buffer s1 = drop (py_norm (length (features_buffer self)) n) (features_buffer self)
          \<and> labels_buffer s1 = drop (py_norm (length (features_buffer self)) n) (labels_buffer self)
          \<and> features_len_buffer s1 = py_del_prefix (features_len_buffer self) n
          \<and> labels_len_buffer s1 = py_del_prefix (labels_len_buffer self) n)"
  using t len
  by (auto simp: take_batch_def Let_def py_take_def py_del_prefix_def split: if_splits)

lemma set_zip_take:
  "set (zip (map Some (take m xs)) (map Some (take m ys))) \<subseteq> set (zip (map Some xs) (map Some ys))"
  by (metis set_take_subset take_map take_zip)

lemma set_zip_drop:
  "set (zip (map Some (drop m xs)) (map Some (drop m ys))) \<subseteq> set (zip (map Some xs) (map Some ys))"
  by (metis set_drop_subset drop_map drop_zip)

lemma inv_take_batch:
  assumes inv: "pairing_inv P self" and t: "take_batch self n = (features, labels, s1)"
  shows "pairing_inv P s1" and "length features = length labels"
    and "set (zip (map Some features) (map Some labels)) \<subseteq> P"
proof -
  from inv have i: "set (zip (source (features_reader self)) (source (labels_reader self))) \<subseteq> P"
    "set (zip (ahead (features_reader self)) (ahead (labels_reader self))) \<subseteq> P"
    "set (zip (map Some (features_buffer self)) (map Some (labels_buffer self))) \<subseteq> P"
    "length (features_buffer self) = length (labels_buffer self)"
    "features_len_buffer self = map length (features_buffer self)"
    "labels_len_buffer self = map length (labels_buffer self)"
    by (simp_all add: pairing_inv_def)
  note p = take_batch_props[OF t i(4)]
  let ?m = "py_norm (length (features_buffer self)) n"
  show "length features = length labels" using p(1,2) i(4) by simp
  show "set (zip (map Some features) (map Some labels)) \<subseteq> P"
    unfolding p(1,2) using set_zip_take[of ?m "features_buffer self" "labels_buffer self"] i(3) by blast
  have r: "features_reader s1 = features_reader self" "labels_reader s1 = labels_reader self"
    by (subst p(3), simp)+
  from p(4) show "pairing_inv P s1"
  proof
    assume "features_buffer s1 = [] \<and> labels_buffer s1 = []
          \<and> features_len_buffer s1 = [] \<and> labels_len_buffer s1 = []"
    with i(1,2) show ?thesis by (simp add: pairing_inv_def r)
  next
    assume d: "features_buffer s1 = drop ?m (features_buffer self)
          \<and> labels_buffer s1 = drop ?m (labels_buffer self)
          \<and> features_len_buffer s1 = py_del_prefix (features_len_buffer self) n
          \<and> labels_len_buffer s1 = py_del_prefix (labels_len_buffer self) n"
    have "set (zip (map Some (features_buffer s1)) (map Some (labels_buffer s1))) \<subseteq> P"
      using d set_zip_drop[of ?m "features_buffer self" "labels_buffer self"] i(3) by auto
    moreover have "features_len_buffer s1 = map length (features_buffer s1)"
      "labels_len_buffer s1 = map length (labels_buffer s1)"
      using d i(4,5,6) by (simp_all add: py_del_prefix_def drop_map)
    ultimately show ?thesis using i(1,2,4) d by (simp add: pairing_inv_def r)
  qed
qed

lemma inv_emit:
  assumes inv: "pairing_inv P self" and e: "emit self = Inr (out, self')"
  shows "pairing_inv P self'"
    and "\<forall>dat. out = Batch dat \<longrightarrow>
           (\<exists>fs ls. ids dat (concat_name FEATURE_NAME_PREFIX IDS_NAME) = Some fs
                  \<and> ids dat (concat_name LABEL_NAME_PREFIX IDS_NAME) = Some ls
                  \<and> length fs = length ls
                  \<and> set (zip (map Some fs) (map Some ls)) \<subseteq> P)"
proof -
  from e have "pairing_inv P self' \<and> (\<forall>dat. out = Batch dat \<longrightarrow>
           (\<exists>fs ls. ids dat (concat_name FEATURE_NAME_PREFIX IDS_NAME) = Some fs
                  \<and> ids dat (concat_name LABEL_NAME_PREFIX IDS_NAME) = Some ls
                  \<and> length fs = length ls
                  \<and> set (zip (map Some fs) (map Some ls)) \<subseteq> P))"
  proof (cases rule: emit_cases)
    case short
    from inv_stop[OF inv short(3)] show ?thesis by simp
  next
    case (empty n features labels s1)
    from inv_take_batch(1)[OF inv empty(3)] have "pairing_inv P s1" .
    from inv_stop[OF this empty(5)] show ?thesis by simp
  next
    case (batch n features labels dat)
    from inv_take_batch[OF inv batch(3)] batch(6,7,8) show ?thesis by auto
  qed
  then show "pairing_inv P self'"
    and "\<forall>dat. out = Batch dat \<longrightarrow>
           (\<exists>fs ls. ids dat (concat_name FEATURE_NAME_PREFIX IDS_NAME) = Some fs
                  \<and> ids dat (concat_name LABEL_NAME_PREFIX IDS_NAME) = Some ls
                  \<and> length fs = length ls
                  \<and> set (zip (map Some fs) (map Some ls)) \<subseteq> P)"
    by blast+
qed

lemma inv_bucket:
  assumes r: "set (zip (source (features_reader self)) (source (labels_reader self))) \<subseteq> P"
    "set (zip (ahead (features_reader self)) (ahead (labels_reader self))) \<subseteq> P"
    "set (zip (map Some (features_buffer self)) (map Some (labels_buffer self))) \<subseteq> P"
    "length (features_buffer self) = length (labels_buffer self)"
    and b: "bucket_buffers argsort self = Inr s2"
  shows "pairing_inv P s2"
proof -
  note p = bucket_buffers_props[OF b]
  have rd: "features_reader s2 = features_reader self" "labels_reader s2 = labels_reader self"
    by (subst p(5), simp)+
  from p(1) r(3) have "set (zip (map Some (features_buffer s2)) (map Some (labels_buffer s2))) \<subseteq> P"
    by blast
  with r(1,2) p(2)[OF r(4)] p(3,4) show ?thesis
    by (simp add: pairing_inv_def rd)
qed

lemma inv_next:
  assumes inv: "pairing_inv P self" and n: "next_batch argsort self = Inr (out, self')"
  shows "pairing_inv P self'"
    and "\<forall>dat. out = Batch dat \<longrightarrow>
           (\<exists>fs ls. ids dat (concat_name FEATURE_NAME_PREFIX IDS_NAME) = Some fs
                  \<and> ids dat (concat_name LABEL_NAME_PREFIX IDS_NAME) = Some ls
                  \<and> length fs = length ls
                  \<and> set (zip (map Some fs) (map Some ls)) \<subseteq> P)"
proof -
  let ?goal = "pairing_inv P self' \<and> (\<forall>dat. out = Batch dat \<longrightarrow>
           (\<exists>fs ls. ids dat (concat_name FEATURE_NAME_PREFIX IDS_NAME) = Some fs
                  \<and> ids dat (concat_name LABEL_NAME_PREFIX IDS_NAME) = Some ls
                  \<and> length fs = length ls
                  \<and> set (zip (map Some fs) (map Some ls)) \<subseteq> P))"
  have ?goal
  proof (cases "end_of_data self")
    case True
    with n have "stop_epoch self = Inr (out, self')" by (simp add: next_batch_def)
    from inv_stop[OF inv this] show ?thesis by simp
  next
    case eod: False
    from inv have len: "length (features_buffer self) = length (labels_buffer self)"
      by (simp add: pairing_inv_def)
    show ?thesis
    proof (cases "int (length (features_buffer self)) < batch_size self")
      case False
      with n eod len have "emit self = Inr (out, self')" by (simp add: next_batch_def)
      from inv_emit[OF inv this] show ?thesis by simp
    next
      case True
      let ?s1 = "refill_buffers self"
      note rp = refill_buffers_props[OF inv]
      show ?thesis
      proof (cases "features_buffer ?s1 = [] \<or> labels_buffer ?s1 = []")
        case e: True
        with n eod len True have st: "stop_epoch ?s1 = Inr (out, self')"
          by (simp add: next_batch_def Let_def)
        from e rp(4) have "features_buffer ?s1 = []" "labels_buffer ?s1 = []" by auto
        with rp have "pairing_inv P ?s1" by (simp add: pairing_inv_def)
        from inv_stop[OF this st] show ?thesis by simp
      next
        case ne: False
        with n eod len True obtain s2 where
          b: "bucket_buffers argsort ?s1 = Inr s2" and em: "emit s2 = Inr (out, self')"
          by (auto simp: next_batch_def Let_def split: sum.splits)
        from inv_bucket[OF rp(1,2,3,4) b] have "pairing_inv P s2" .
        from inv_emit[OF this em] show ?thesis by simp
      qed
    qed
  qed
  then show "pairing_inv P self'"
    and "\<forall>dat. out = Batch dat \<longrightarrow>
           (\<exists>fs ls. ids dat (concat_name FEATURE_NAME_PREFIX IDS_NAME) = Some fs
                  \<and> ids dat (concat_name LABEL_NAME_PREFIX IDS_NAME) = Some ls
                  \<and> length fs = length ls
                  \<and> set (zip (map Some fs) (map Some ls)) \<subseteq> P)"
    by blast+
qed
section \<open>The pairing invariant\<close>

lemma paired_from_zip:
  assumes "ids dat (concat_name FEATURE_NAME_PREFIX IDS_NAME) = Some fs"
    and "ids dat (concat_name LABEL_NAME_PREFIX IDS_NAME) = Some ls"
    and l: "length fs = length ls"
    and z: "set (zip (map Some fs) (map Some ls)) \<subseteq> set (zip (source f_reader) (source l_reader))"
  shows "originally_paired f_reader l_reader dat"
proof -
  have "\<forall>i<length fs. (Some (fs ! i), Some (ls ! i)) \<in> set (zip (source f_reader) (source l_reader))"
  proof (intro allI impI)
    fix i assume i: "i < length fs"
    then have "(Some (fs ! i), Some (ls ! i)) \<in> set (zip (map Some fs) (map Some ls))"
      using l by (auto simp: set_zip intro!: exI[of _ i])
    with z show "(Some (fs ! i), Some (ls ! i)) \<in> set (zip (source f_reader) (source l_reader))"
      by blast
  qed
  with assms(1,2) l show ?thesis unfolding originally_paired_def by blast
qed

lemma inv_pulls:
  assumes "pairing_inv P self" and "pulls argsort k self = Inr (outs, self')"
  shows "pairing_inv P self'"
    and "\<forall>dat. Batch dat \<in> set outs \<longrightarrow>
           (\<exists>fs ls. ids dat (concat_name FEATURE_NAME_PREFIX IDS_NAME) = Some fs
                  \<and> ids dat (concat_name LABEL_NAME_PREFIX IDS_NAME) = Some ls
                  \<and> length fs = length ls
                  \<and> set (zip (map Some fs) (map Some ls)) \<subseteq> P)"
proof -
  have "pairing_inv P self' \<and> (\<forall>dat. Batch dat \<in> set outs \<longrightarrow>
           (\<exists>fs ls. ids dat (concat_name FEATURE_NAME_PREFIX IDS_NAME) = Some fs
                  \<and> ids dat (concat_name LABEL_NAME_PREFIX IDS_NAME) = Some ls
                  \<and> length fs = length ls
                  \<and> set (zip (map Some fs) (map Some ls)) \<subseteq> P))"
    using assms
  proof (induction k arbitrary: self outs)
    case 0
    then show ?case by simp
  next
    case (Suc k)
    from Suc.prems(2) obtain out s1 rest where
      n: "next_batch argsort self = Inr (out, s1)"
      and p: "pulls argsort k s1 = Inr (rest, self')"
      and o: "outs = out # rest"
      by (auto split: sum.splits prod.splits)
    note st = inv_next[OF Suc.prems(1) n]
    from Suc.IH[OF st(1) p] st(2) o show ?case by auto
  qed
  then show "pairing_inv P self'"
    and "\<forall>dat. Batch dat \<in> set outs \<longrightarrow>
           (\<exists>fs ls. ids dat (concat_name FEATURE_NAME_PREFIX IDS_NAME) = Some fs
                  \<and> ids dat (concat_name LABEL_NAME_PREFIX IDS_NAME) = Some ls
                  \<and> length fs = length ls
                  \<and> set (zip (map Some fs) (map Some ls)) \<subseteq> P)"
    by blast+
qed

lemma inv_init:
  assumes "BigParallelDataIterator_init parent fs = Inr it"
  shows "pairing_inv (set (zip (source (features_reader parent)) (source (labels_reader parent)))) it"
proof -
  let ?it0 = "\<lparr>features_reader = features_reader parent, labels_reader = labels_reader parent,
              features_padding_id = features_padding_id parent,
              labels_padding_id = labels_padding_id parent,
              batch_size = batch_size parent, batch_tokens_size = batch_tokens_size parent,
              shuffle_every_epoch = shuffle_every_epoch parent,
              fill_full_batch = fill_full_batch parent, bucketing = bucketing parent,
              cache_size = cache_size parent,
              features_buffer = [], labels_buffer = [],
              features_len_buffer = [], labels_len_buffer = [],
              end_of_data = False, input_fields = fs\<rparr>"
  from assms have r: "reset_readers ?it0 = Inr it"
    by (auto simp: BigParallelDataIterator_init_def split: sum.splits)
  note p = reset_readers_props[OF r]
  have src: "set (zip (source (features_reader it)) (source (labels_reader it)))
               \<subseteq> set (zip (source (features_reader parent)) (source (labels_reader parent)))"
  proof (cases "truthy (shuffle_every_epoch ?it0)")
    case True
    from p(7)[OF True] obtain idx where
      "gather (source (features_reader parent)) idx = Inr (source (features_reader it))"
      "gather (source (labels_reader parent)) idx = Inr (source (labels_reader it))" by auto
    then show ?thesis by (rule gather_zip_subset)
  next
    case False
    from p(6)[OF False] show ?thesis by simp
  qed
  have ah: "ahead (features_reader it) = source (features_reader it)"
    "ahead (labels_reader it) = source (labels_reader it)"
    using p(2,3) by (simp_all add: ahead_def)
  have b: "features_buffer it = []" "labels_buffer it = []"
    "features_len_buffer it = []" "labels_len_buffer it = []"
    by (subst p(1), simp)+
  from src show ?thesis
    unfolding pairing_inv_def ah b by simp
qed

lemma py_slice_zip:
  assumes "length ss = length tt"
  shows "length (py_slice ss lo hi) = length (py_slice tt lo hi)"
    and "set (zip (map Some (py_slice ss lo hi)) (map Some (py_slice tt lo hi)))
           \<subseteq> set (zip (map Some ss) (map Some tt))"
proof -
  let ?a = "py_norm (length ss) lo" and ?b = "py_norm (length ss) hi"
  have s: "py_slice ss lo hi = take (?b - ?a) (drop ?a ss)" "py_slice tt lo hi = take (?b - ?a) (drop ?a tt)"
    using assms by (simp_all add: py_slice_def Let_def)
  show "length (py_slice ss lo hi) = length (py_slice tt lo hi)"
    using assms by (simp add: s)
  have "set (zip (map Some (take (?b - ?a) (drop ?a ss))) (map Some (take (?b - ?a) (drop ?a tt))))
          \<subseteq> set (zip (map Some (drop ?a ss)) (map Some (drop ?a tt)))"
    by (rule set_zip_take)
  also have "\<dots> \<subseteq> set (zip (map Some ss) (map Some tt))"
    by (rule set_zip_drop)
  finally show "set (zip (map Some (py_slice ss lo hi)) (map Some (py_slice tt lo hi)))
           \<subseteq> set (zip (map Some ss) (map Some tt))"
    by (simp add: s)
qed

lemma pair_batch_loop_members:
  assumes a: "pair_batch_loop pack ss tt b i acc = Some res"
  shows "\<forall>dats. res = Inr dats \<longrightarrow>
           (\<forall>d \<in> set dats. d \<in> set acc \<or> (\<exists>lo hi. pack (py_slice ss lo hi) (py_slice tt lo hi) = Inr d))"
proof (rule pair_batch_loop.raw_induct
            [where P = "\<lambda>pack ss tt b i acc res. \<forall>dats. res = Inr dats \<longrightarrow>
               (\<forall>d \<in> set dats. d \<in> set acc \<or> (\<exists>lo hi. pack (py_slice ss lo hi) (py_slice tt lo hi) = Inr d))",
             OF _ a])
  fix loop pack ss tt b i acc res
  assume ih: "\<And>pack ss tt b i acc res. loop pack ss tt b i acc = Some res \<Longrightarrow>
           \<forall>dats. res = Inr dats \<longrightarrow>
           (\<forall>d \<in> set dats. d \<in> set acc \<or> (\<exists>lo hi. pack (py_slice ss lo hi) (py_slice tt lo hi) = Inr d))"
    and body: "(if i < int (length ss)
                then case pack (py_slice ss i (i + b)) (py_slice tt i (i + b)) of
                       Inl e \<Rightarrow> Some (Inl e)
                     | Inr x \<Rightarrow> loop pack ss tt b (i + b) (acc @ [x])
                else Some (Inr acc)) = Some res"
  show "\<forall>dats. res = Inr dats \<longrightarrow>
           (\<forall>d \<in> set dats. d \<in> set acc \<or> (\<exists>lo hi. pack (py_slice ss lo hi) (py_slice tt lo hi) = Inr d))"
  proof (cases "i < int (length ss)")
    case False
    with body show ?thesis by auto
  next
    case True
    show ?thesis
    proof (cases "pack (py_slice ss i (i + b)) (py_slice tt i (i + b))")
      case (Inl e)
      with body True show ?thesis by auto
    next
      case (Inr x)
      with body True have "loop pack ss tt b (i + b) (acc @ [x]) = Some res" by simp
      from ih[OF this] Inr show ?thesis by (metis Un_iff empty_iff empty_set insert_iff list.simps(15) set_append)
    qed
  qed
qed

lemma small_buffers_paired:
  assumes c: "cursor (features_reader self) = cursor (labels_reader self)"
    and b: "small_buffers argsort self = Inr (self', ss, tt)"
  shows "length ss = length tt"
    and "set (zip (map Some ss) (map Some tt))
           \<subseteq> set (zip (source (features_reader self)) (source (labels_reader self)))"
proof -
  let ?z = "zip (ahead (features_reader self)) (ahead (labels_reader self))"
  let ?X = "complete_pairs ?z"
  from drain_pairs_char[of "features_reader self" "labels_reader self" "[]" "[]"]
  obtain fr' lr' where
    d: "drain_pairs (features_reader self) (labels_reader self) [] []
          = (fr', lr', map fst ?X, map snd ?X)"
    by auto
  have "?z = drop (cursor (features_reader self))
                  (zip (source (features_reader self)) (source (labels_reader self)))"
    by (simp add: ahead_def c drop_zip)
  then have zs: "set ?z \<subseteq> set (zip (source (features_reader self)) (source (labels_reader self)))"
    by (simp add: set_drop_subset)
  have x: "set (zip (map Some (map fst ?X)) (map Some (map snd ?X))) \<subseteq> set ?z"
    using complete_pairs_zip[of "length ?X" ?z] by simp
  show "length ss = length tt"
    and "set (zip (map Some ss) (map Some tt))
           \<subseteq> set (zip (source (features_reader self)) (source (labels_reader self)))"
  proof -
    show "length ss = length tt"
    proof (cases "bucketing self")
      case False
      with b d show ?thesis by (auto simp: small_buffers_def)
    next
      case True
      let ?tidx = "argsort (map length (map snd ?X))"
      from b d True have
        "gather (map fst ?X) ?tidx = Inr ss" "gather (map snd ?X) ?tidx = Inr tt"
        by (auto simp: small_buffers_def do_bucketing_def Let_def
                 split: if_splits sum.splits prod.splits list.splits)
      then show ?thesis by (rule gather_zip_subset(2))
    qed
    show "set (zip (map Some ss) (map Some tt))
           \<subseteq> set (zip (source (features_reader self)) (source (labels_reader self)))"
    proof (cases "bucketing self")
      case False
      with b d have "ss = map fst ?X" "tt = map snd ?X" by (auto simp: small_buffers_def)
      with x zs show ?thesis by blast
    next
      case True
      let ?tidx = "argsort (map length (map snd ?X))"
      from b d True have
        "gather (map fst ?X) ?tidx = Inr ss" "gather (map snd ?X) ?tidx = Inr tt"
        by (auto simp: small_buffers_def do_bucketing_def Let_def
                 split: if_splits sum.splits prod.splits list.splits)
      then have "gather (map Some (map fst ?X)) ?tidx = Inr (map Some ss)"
        "gather (map Some (map snd ?X)) ?tidx = Inr (map Some tt)"
        using gather_map by blast+
      then have "set (zip (map Some ss) (map Some tt))
                   \<subseteq> set (zip (map Some (map fst ?X)) (map Some (map snd ?X)))"
        by (rule gather_zip_subset(1))
      with x zs show ?thesis by blast
    qed
  qed
qed

lemma small_parallel_data_paired:
  assumes c: "cursor (features_reader self) = cursor (labels_reader self)"
    and r: "small_parallel_data argsort self fs = Some (Inr (self', dats))"
    and d: "dat \<in> set dats"
  shows "originally_paired (features_reader self) (labels_reader self) dat"
proof -
  from r obtain s1 ss tt where
    b: "small_buffers argsort self = Inr (s1, ss, tt)"
    and l: "pair_batch_loop (pack_pair self fs) ss tt (batch_size self) 0 [] = Some (Inr dats)"
    by (auto simp: small_parallel_data_def split: sum.splits prod.splits option.splits)
  note sb = small_buffers_paired[OF c b]
  from pair_batch_loop_members[OF l] d obtain lo hi where
    p: "pack_pair self fs (py_slice ss lo hi) (py_slice tt lo hi) = Inr dat"
    by auto
  note i = pack_pair_ids[OF p]
  note z = py_slice_zip[OF sb(1), of lo hi]
  from z(2) sb(2) have "set (zip (map Some (py_slice ss lo hi)) (map Some (py_slice tt lo hi)))
           \<subseteq> set (zip (source (features_reader self)) (source (labels_reader self)))"
    by blast
  from paired_from_zip[OF i z(1) this] show ?thesis .
qed

text \<open>
  C1.  The pairing invariant.  Streaming: whatever the configuration (count or
  token budget, bucketing, shuffling with the linked permutation,
  \<^verbatim>\<open>fill_full_batch\<close>), whatever \<^verbatim>\<open>argsort\<close> returns and wherever the cursors of
  the two readers stand when the iterator is made, every batch that any number
  of pulls emits holds as many features as labels, and the feature sequence and
  the label sequence at one position of the batch stand on one line of the two
  corpora.  In memory: the same for every batch of the list returned, when the
  two readers are handed over at the same line.
\<close>

theorem pairing_invariant:
  "(make_feeding_data argsort self fs False = Some (Inr (Streaming it))
      \<longrightarrow> pulls argsort k it = Inr (outs, it') \<longrightarrow> Batch dat \<in> set outs
      \<longrightarrow> originally_paired (features_reader self) (labels_reader self) dat)
   \<and> (cursor (features_reader self) = cursor (labels_reader self)
      \<longrightarrow> make_feeding_data argsort self fs True = Some (Inr (InMemory self' dats))
      \<longrightarrow> dat' \<in> set dats
      \<longrightarrow> originally_paired (features_reader self) (labels_reader self) dat')"
proof (intro conjI impI)
  assume m: "make_feeding_data argsort self fs False = Some (Inr (Streaming it))"
    and p: "pulls argsort k it = Inr (outs, it')" and b: "Batch dat \<in> set outs"
  from m have "BigParallelDataIterator_init self fs = Inr it"
    by (auto simp: make_feeding_data_def split: sum.splits)
  note inv = inv_init[OF this]
  from inv_pulls(2)[OF inv p] b obtain fs' ls where
    "ids dat (concat_name FEATURE_NAME_PREFIX IDS_NAME) = Some fs'"
    "ids dat (concat_name LABEL_NAME_PREFIX IDS_NAME) = Some ls"
    "length fs' = length ls"
    "set (zip (map Some fs') (map Some ls))
       \<subseteq> set (zip (source (features_reader self)) (source (labels_reader self)))"
    by blast
  then show "originally_paired (features_reader self) (labels_reader self) dat"
    by (rule paired_from_zip)
next
  assume c: "cursor (features_reader self) = cursor (labels_reader self)"
    and m: "make_feeding_data argsort self fs True = Some (Inr (InMemory self' dats))"
    and d: "dat' \<in> set dats"
  from m have "small_parallel_data argsort self fs = Some (Inr (self', dats))"
    by (auto simp: make_feeding_data_def split: if_splits option.splits sum.splits prod.splits)
  from small_parallel_data_paired[OF c this d]
  show "originally_paired (features_reader self) (labels_reader self) dat'" .
qed
lemma streamed_Some:
  assumes "streamed argsort self fs k = Some (ids_out, flag, rf, rl, fb, lb)"
  obtains it outs it' where "make_feeding_data argsort self fs False = Some (Inr (Streaming it))"
    and "pulls argsort k it = Inr (outs, it')" and "map batch_ids outs = ids_out"
    and "end_of_data it' = flag" and "resets (features_reader it') = rf"
    and "resets (labels_reader it') = rl"
    and "features_buffer it' = fb" and "labels_buffer it' = lb"
  using assms
  by (auto simp: streamed_def split: option.splits sum.splits feeding.splits prod.splits)

lemma in_memory_ids_Some:
  assumes "in_memory_ids argsort self fs = Some ids_out"
  obtains self' dats where "make_feeding_data argsort self fs True = Some (Inr (InMemory self' dats))"
    and "map (\<lambda>d. batch_ids (Batch d)) dats = ids_out"
  using assms
  by (auto simp: in_memory_ids_def split: option.splits sum.splits feeding.splits)

lemma batch_ids_Some: "batch_ids out = Some x \<Longrightarrow> \<exists>dat. out = Batch dat"
  by (cases out) (simp_all add: batch_ids_def)

theorem pairing_invariant_witness:
  "\<exists>it outs it' dat self' dats dat'.
      make_feeding_data npy_argsort ex_shuffling [slot_pair] False = Some (Inr (Streaming it))
    \<and> pulls npy_argsort 2 it = Inr (outs, it')
    \<and> Batch dat \<in> set outs
    \<and> batch_ids (Batch dat) = Some (Some [[1, 1, 1], [4, 4]], Some [[10], [40, 40]])
    \<and> originally_paired (features_reader ex_shuffling) (labels_reader ex_shuffling) dat
    \<and> cursor (features_reader ex_small) = cursor (labels_reader ex_small)
    \<and> make_feeding_data npy_argsort ex_small [slot_pair] True = Some (Inr (InMemory self' dats))
    \<and> dat' \<in> set dats
    \<and> batch_ids (Batch dat') = Some (Some [[2]], Some [[20, 20, 20]])
    \<and> originally_paired (features_reader ex_small) (labels_reader ex_small) dat'"
proof -
  have "streamed npy_argsort ex_shuffling [slot_pair] 2
          = Some ([Some (Some [[1, 1, 1], [4, 4]], Some [[10], [40, 40]]), Some (Some [[2]], Some [[20, 20, 20]])],
                  False, 1, 1, [], [])"
    by code_simp
  then obtain it outs it' where
    m: "make_feeding_data npy_argsort ex_shuffling [slot_pair] False = Some (Inr (Streaming it))"
    and p: "pulls npy_argsort 2 it = Inr (outs, it')"
    and o: "map batch_ids outs = [Some (Some [[1, 1, 1], [4, 4]], Some [[10], [40, 40]]), Some (Some [[2]], Some [[20, 20, 20]])]"
    by (rule streamed_Some)
  from o obtain out rest where
    e: "outs = out # rest" and b: "batch_ids out = Some (Some [[1, 1, 1], [4, 4]], Some [[10], [40, 40]])"
    by (cases outs) auto
  from batch_ids_Some[OF b] obtain dat where d: "out = Batch dat" by blast
  from e d have i: "Batch dat \<in> set outs" by simp
  have s: "originally_paired (features_reader ex_shuffling) (labels_reader ex_shuffling) dat"
    using pairing_invariant[of npy_argsort ex_shuffling "[slot_pair]" it 2 outs it' dat] m p i by blast
  have c: "cursor (features_reader ex_small) = cursor (labels_reader ex_small)"
    by (simp add: ex_small_def)
  have "in_memory_ids npy_argsort ex_small [slot_pair]
          = Some [Some (Some [[1, 1, 1], [4, 4]], Some [[10], [40, 40]]), Some (Some [[2]], Some [[20, 20, 20]])]"
    by code_simp
  then obtain self' dats where
    m': "make_feeding_data npy_argsort ex_small [slot_pair] True = Some (Inr (InMemory self' dats))"
    and o': "map (\<lambda>d. batch_ids (Batch d)) dats
              = [Some (Some [[1, 1, 1], [4, 4]], Some [[10], [40, 40]]), Some (Some [[2]], Some [[20, 20, 20]])]"
    by (rule in_memory_ids_Some)
  from o' obtain d0 dat' where e': "dats = [d0, dat']"
    and b': "batch_ids (Batch dat') = Some (Some [[2]], Some [[20, 20, 20]])"
    by (cases dats; cases "tl dats") auto
  from e' have i': "dat' \<in> set dats" by simp
  have s': "originally_paired (features_reader ex_small) (labels_reader ex_small) dat'"
    using pairing_invariant[of npy_argsort ex_small "[slot_pair]" _ _ _ _ _ self' dats dat'] c m' i'
    by blast
  from m p i b d s c m' i' b' s' show ?thesis by blast
qed
section \<open>Epoch boundaries and reader resets\<close>

lemma take_batch_frame:
  assumes "take_batch self n = (features, labels, s1)"
  shows "end_of_data s1 = end_of_data self"
    and "features_reader s1 = features_reader self" and "labels_reader s1 = labels_reader self"
    and "fill_full_batch s1 = fill_full_batch self" and "batch_size s1 = batch_size self"
  using assms by (auto simp: take_batch_def Let_def split: if_splits)

lemma bucket_buffers_frame:
  assumes "bucket_buffers argsort self = Inr s2"
  shows "end_of_data s2 = end_of_data self"
    and "features_reader s2 = features_reader self" and "labels_reader s2 = labels_reader self"
    and "fill_full_batch s2 = fill_full_batch self" and "batch_size s2 = batch_size self"
  by (subst bucket_buffers_props(5)[OF assms], simp)+

lemma emit_frame:
  assumes e: "emit self = Inr (out, self')"
  shows "(out = StopIteration \<and> \<not> end_of_data self'
          \<and> resets (features_reader self') = Suc (resets (features_reader self))
          \<and> resets (labels_reader self') = Suc (resets (labels_reader self))
          \<and> cursor (features_reader self') = 0 \<and> cursor (labels_reader self') = 0)
       \<or> ((\<exists>dat. out = Batch dat) \<and> end_of_data self' = end_of_data self
          \<and> resets (features_reader self') = resets (features_reader self)
          \<and> resets (labels_reader self') = resets (labels_reader self))"
  using e
proof (cases rule: emit_cases)
  case short
  from stop_epoch_props[OF short(3)] show ?thesis by simp
next
  case (empty n features labels s1)
  from stop_epoch_props[OF empty(5)] take_batch_frame[OF empty(3)] show ?thesis by simp
next
  case (batch n features labels dat)
  from take_batch_frame[OF batch(3)] batch(6) show ?thesis by simp
qed

lemma next_frame:
  assumes n: "next_batch argsort self = Inr (out, self')"
  shows "\<not> end_of_data self'"
    and "out = StopIteration \<Longrightarrow>
           resets (features_reader self') = Suc (resets (features_reader self))
         \<and> resets (labels_reader self') = Suc (resets (labels_reader self))
         \<and> cursor (features_reader self') = 0 \<and> cursor (labels_reader self') = 0"
    and "out = Batch dat \<Longrightarrow>
           resets (features_reader self') = resets (features_reader self)
         \<and> resets (labels_reader self') = resets (labels_reader self)"
proof -
  let ?stop = "out = StopIteration \<and> \<not> end_of_data self'
          \<and> resets (features_reader self') = Suc (resets (features_reader self))
          \<and> resets (labels_reader self') = Suc (resets (labels_reader self))
          \<and> cursor (features_reader self') = 0 \<and> cursor (labels_reader self') = 0"
  let ?batch = "(\<exists>dat. out = Batch dat) \<and> \<not> end_of_data self'
          \<and> resets (features_reader self') = resets (features_reader self)
          \<and> resets (labels_reader self') = resets (labels_reader self)"
  have "?stop \<or> ?batch"
  proof (cases "end_of_data self")
    case True
    with n have "stop_epoch self = Inr (out, self')" by (simp add: next_batch_def)
    from stop_epoch_props[OF this] show ?thesis by simp
  next
    case eod: False
    show ?thesis
    proof (cases "int (length (features_buffer self)) < batch_size self")
      case False
      with n eod have "emit self = Inr (out, self')"
        by (simp add: next_batch_def split: if_splits)
      from emit_frame[OF this] eod show ?thesis by auto
    next
      case True
      let ?s1 = "refill_buffers self"
      note f = refill_buffers_frame[of self]
      show ?thesis
      proof (cases "length (features_buffer ?s1) = 0 \<or> length (labels_buffer ?s1) = 0")
        case e: True
        with n eod True have "stop_epoch ?s1 = Inr (out, self')"
          by (simp add: next_batch_def Let_def split: if_splits)
        from stop_epoch_props[OF this] f show ?thesis by simp
      next
        case ne: False
        with n eod True obtain s2 where
          b: "bucket_buffers argsort ?s1 = Inr s2" and em: "emit s2 = Inr (out, self')"
          by (auto simp: next_batch_def Let_def split: if_splits sum.splits)
        from emit_frame[OF em] bucket_buffers_frame[OF b] f eod show ?thesis by auto
      qed
    qed
  qed
  then show "\<not> end_of_data self'"
    and "out = StopIteration \<Longrightarrow>
           resets (features_reader self') = Suc (resets (features_reader self))
         \<and> resets (labels_reader self') = Suc (resets (labels_reader self))
         \<and> cursor (features_reader self') = 0 \<and> cursor (labels_reader self') = 0"
    and "out = Batch dat \<Longrightarrow>
           resets (features_reader self') = resets (features_reader self)
         \<and> resets (labels_reader self') = resets (labels_reader self)"
    by auto
qed

lemma init_props:
  assumes "BigParallelDataIterator_init parent fs = Inr it"
  shows "\<not> end_of_data it" "features_buffer it = []" "labels_buffer it = []"
    and "cursor (features_reader it) = 0" "cursor (labels_reader it) = 0"
    and "resets (features_reader it) = Suc (resets (features_reader parent))"
    and "resets (labels_reader it) = Suc (resets (labels_reader parent))"
    and "truthy (shuffle_every_epoch parent) \<Longrightarrow>
           \<exists>idx. gather (source (features_reader parent)) idx = Inr (source (features_reader it))
               \<and> gather (source (labels_reader parent)) idx = Inr (source (labels_reader it))"
    and "\<not> truthy (shuffle_every_epoch parent) \<Longrightarrow>
           source (features_reader it) = source (features_reader parent)
         \<and> source (labels_reader it) = source (labels_reader parent)"
proof -
  let ?it0 = "\<lparr>features_reader = features_reader parent, labels_reader = labels_reader parent,
              features_padding_id = features_padding_id parent,
              labels_padding_id = labels_padding_id parent,
              batch_size = batch_size parent, batch_tokens_size = batch_tokens_size parent,
              shuffle_every_epoch = shuffle_every_epoch parent,
              fill_full_batch = fill_full_batch parent, bucketing = bucketing parent,
              cache_size = cache_size parent,
              features_buffer = [], labels_buffer = [],
              features_len_buffer = [], labels_len_buffer = [],
              end_of_data = False, input_fields = fs\<rparr>"
  from assms have r: "reset_readers ?it0 = Inr it"
    by (auto simp: BigParallelDataIterator_init_def split: sum.splits)
  note p = reset_readers_props[OF r]
  show "\<not> end_of_data it" "features_buffer it = []" "labels_buffer it = []"
    by (subst p(1), simp)+
  from p(2,3,4,5) show "cursor (features_reader it) = 0" "cursor (labels_reader it) = 0"
    "resets (features_reader it) = Suc (resets (features_reader parent))"
    "resets (labels_reader it) = Suc (resets (labels_reader parent))"
    by simp_all
  show "\<exists>idx. gather (source (features_reader parent)) idx = Inr (source (features_reader it))
               \<and> gather (source (labels_reader parent)) idx = Inr (source (labels_reader it))"
    if "truthy (shuffle_every_epoch parent)"
    using p(7) that by simp
  show "source (features_reader it) = source (features_reader parent)
         \<and> source (labels_reader it) = source (labels_reader parent)"
    if "\<not> truthy (shuffle_every_epoch parent)"
    using p(6) that by simp
qed

lemma init_plain:
  "\<not> truthy (shuffle_every_epoch parent) \<Longrightarrow> \<exists>it. BigParallelDataIterator_init parent fs = Inr it"
  by (simp add: BigParallelDataIterator_init_def reset_readers_def reader_reset_plain)

lemma pulls_resets:
  assumes "pulls argsort k self = Inr (outs, self')"
  shows "resets (features_reader self') = resets (features_reader self) + count_list outs StopIteration"
    and "resets (labels_reader self') = resets (labels_reader self) + count_list outs StopIteration"
    and "k = 0 \<or> \<not> end_of_data self'" and "length outs = k"
proof -
  have "resets (features_reader self') = resets (features_reader self) + count_list outs StopIteration
      \<and> resets (labels_reader self') = resets (labels_reader self) + count_list outs StopIteration
      \<and> (k = 0 \<or> \<not> end_of_data self') \<and> length outs = k"
    using assms
  proof (induction k arbitrary: self outs)
    case 0
    then show ?case by simp
  next
    case (Suc k)
    from Suc.prems obtain out s1 rest where
      n: "next_batch argsort self = Inr (out, s1)"
      and p: "pulls argsort k s1 = Inr (rest, self')"
      and o: "outs = out # rest"
      by (auto split: sum.splits prod.splits)
    note f = next_frame[OF n]
    have e: "\<not> end_of_data self'"
    proof (cases k)
      case 0
      with p f(1) show ?thesis by simp
    next
      case (Suc j)
      with Suc.IH[OF p] show ?thesis by simp
    qed
    show ?case
    proof (cases out)
      case (Batch dat)
      with f(3)[OF Batch] Suc.IH[OF p] o e show ?thesis by simp
    next
      case StopIteration
      with f(2)[OF StopIteration] Suc.IH[OF p] o e show ?thesis by simp
    qed
  qed
  then show "resets (features_reader self') = resets (features_reader self) + count_list outs StopIteration"
    and "resets (labels_reader self') = resets (labels_reader self) + count_list outs StopIteration"
    and "k = 0 \<or> \<not> end_of_data self'" and "length outs = k"
    by blast+
qed
lemma pulls_last:
  "pulls argsort (Suc k) self = Inr (outs, self')
     \<Longrightarrow> \<exists>outs0 s0 out. pulls argsort k self = Inr (outs0, s0)
           \<and> next_batch argsort s0 = Inr (out, self') \<and> outs = outs0 @ [out]"
proof (induction k arbitrary: self outs)
  case 0
  then show ?case by (auto split: sum.splits prod.splits)
next
  case (Suc k)
  from Suc.prems obtain out s1 rest where
    n: "next_batch argsort self = Inr (out, s1)"
    and p: "pulls argsort (Suc k) s1 = Inr (rest, self')"
    and o: "outs = out # rest"
    by (auto split: sum.splits prod.splits)
  from Suc.IH[OF p] obtain outs0 s0 out' where
    "pulls argsort k s1 = Inr (outs0, s0)" "next_batch argsort s0 = Inr (out', self')"
    "rest = outs0 @ [out']" by blast
  with n o show ?case by auto
qed

text \<open>
  C2, as amended.  The epoch boundary of the streaming batcher takes one pull.
  The flag \<^verbatim>\<open>_end_of_data\<close> is false when the iterator is made and false after
  every pull: no statement sets it.  A pull that signals the end of the sequence
  has reset both readers, once each, in that same pull, and a pull that returns
  a batch has reset neither.  When the refill of a pull leaves the cache empty,
  and when \<^verbatim>\<open>fill_full_batch\<close> forbids a short batch, that pull itself resets and
  signals the end.
\<close>

theorem epoch_boundary_in_one_pull:
  "(BigParallelDataIterator_init parent fs = Inr it \<longrightarrow> \<not> end_of_data it)
   \<and> (next_batch argsort self = Inr (out, self') \<longrightarrow>
        \<not> end_of_data self'
      \<and> (out = StopIteration \<longrightarrow>
            resets (features_reader self') = Suc (resets (features_reader self))
          \<and> resets (labels_reader self') = Suc (resets (labels_reader self))
          \<and> cursor (features_reader self') = 0 \<and> cursor (labels_reader self') = 0)
      \<and> (\<forall>dat. out = Batch dat \<longrightarrow>
            resets (features_reader self') = resets (features_reader self)
          \<and> resets (labels_reader self') = resets (labels_reader self)))
   \<and> (\<not> end_of_data self \<longrightarrow> length (features_buffer self) = length (labels_buffer self)
        \<longrightarrow> int (length (features_buffer self)) < batch_size self
        \<longrightarrow> features_buffer (refill_buffers self) = []
        \<longrightarrow> next_batch argsort self = stop_epoch (refill_buffers self))
   \<and> (fill_full_batch self \<longrightarrow> int (length (features_buffer self)) < batch_size self
        \<longrightarrow> emit self = stop_epoch self)
   \<and> (stop_epoch self = Inr (out, self') \<longrightarrow> out = StopIteration \<and> \<not> end_of_data self')"
proof (intro conjI impI allI)
  assume "BigParallelDataIterator_init parent fs = Inr it"
  from init_props(1)[OF this] show "\<not> end_of_data it" .
next
  assume n: "next_batch argsort self = Inr (out, self')"
  from next_frame(1)[OF n] show "\<not> end_of_data self'" .
  { assume "out = StopIteration"
    from next_frame(2)[OF n this]
    show "resets (features_reader self') = Suc (resets (features_reader self))"
      "resets (labels_reader self') = Suc (resets (labels_reader self))"
      "cursor (features_reader self') = 0" "cursor (labels_reader self') = 0"
      by simp_all }
  { fix dat assume "out = Batch dat"
    from next_frame(3)[OF n this]
    show "resets (features_reader self') = resets (features_reader self)"
      "resets (labels_reader self') = resets (labels_reader self)"
      by simp_all }
next
  assume "\<not> end_of_data self" "length (features_buffer self) = length (labels_buffer self)"
    "int (length (features_buffer self)) < batch_size self"
    "features_buffer (refill_buffers self) = []"
  then show "next_batch argsort self = stop_epoch (refill_buffers self)"
    by (simp add: next_batch_def Let_def)
next
  assume "fill_full_batch self" "int (length (features_buffer self)) < batch_size self"
  then show "emit self = stop_epoch self" by (simp add: emit_def)
next
  assume s: "stop_epoch self = Inr (out, self')"
  from stop_epoch_props(1,2)[OF s] show "out = StopIteration" "\<not> end_of_data self'" .
qed

theorem epoch_boundary_in_one_pull_witness:
  "\<exists>(self :: nat iterator) self'. next_batch npy_argsort self = Inr (StopIteration, self')
      \<and> features_buffer self = [] \<and> resets (features_reader self) = 1
      \<and> \<not> end_of_data self'
      \<and> resets (features_reader self') = 2 \<and> resets (labels_reader self') = 2
      \<and> cursor (features_reader self') = 0 \<and> cursor (labels_reader self') = 0"
proof -
  have "streamed npy_argsort ex_plain [slot_pair] 2
          = Some ([Some (Some [[1], [2]], Some [[11], [12]]), Some (Some [[3]], Some [[13]])], False, 1, 1, [], [])"
    by code_simp
  then obtain it outs2 s2 where
    "make_feeding_data npy_argsort ex_plain [slot_pair] False = Some (Inr (Streaming it))"
    and p2: "pulls npy_argsort 2 it = Inr (outs2, s2)"
    and s2: "features_buffer s2 = []" "resets (features_reader s2) = 1" "resets (labels_reader s2) = 1"
    by (rule streamed_Some)
  have "streamed npy_argsort ex_plain [slot_pair] 3
          = Some ([Some (Some [[1], [2]], Some [[11], [12]]), Some (Some [[3]], Some [[13]]), None], False, 2, 2, [], [])"
    by code_simp
  then obtain it' outs3 s3 where
    m3: "make_feeding_data npy_argsort ex_plain [slot_pair] False = Some (Inr (Streaming it'))"
    and p3: "pulls npy_argsort 3 it' = Inr (outs3, s3)"
    and o3: "map batch_ids outs3 = [Some (Some [[1], [2]], Some [[11], [12]]), Some (Some [[3]], Some [[13]]), None]"
    by (rule streamed_Some)
  from m3 \<open>make_feeding_data npy_argsort ex_plain [slot_pair] False = Some (Inr (Streaming it))\<close>
  have "it' = it" by simp
  with p3 have "pulls npy_argsort (Suc 2) it = Inr (outs3, s3)" by (simp add: numeral_3_eq_3 numeral_2_eq_2)
  from pulls_last[OF this] p2 obtain out where
    n: "next_batch npy_argsort s2 = Inr (out, s3)" and e: "outs3 = outs2 @ [out]"
    by auto
  from pulls_resets(4)[OF p2] e o3 have "batch_ids out = None" by (cases outs2; cases "tl outs2") auto
  then have st: "out = StopIteration" by (cases out) (simp_all add: batch_ids_def)
  from epoch_boundary_in_one_pull[of _ _ _ npy_argsort s2 out s3] n st
  have "\<not> end_of_data s3
      \<and> resets (features_reader s3) = Suc (resets (features_reader s2))
      \<and> resets (labels_reader s3) = Suc (resets (labels_reader s2))
      \<and> cursor (features_reader s3) = 0 \<and> cursor (labels_reader s3) = 0"
    by blast
  with n st s2 have "next_batch npy_argsort s2 = Inr (StopIteration, s3)
      \<and> features_buffer s2 = [] \<and> resets (features_reader s2) = 1
      \<and> \<not> end_of_data s3
      \<and> resets (features_reader s3) = 2 \<and> resets (labels_reader s3) = 2
      \<and> cursor (features_reader s3) = 0 \<and> cursor (labels_reader s3) = 0"
    by simp
  then show ?thesis by blast
qed

text \<open>
  C2, as stated, fails.  On three pairs in batches of two, the third pull finds
  nothing to refill: it is that pull that signals the end of the sequence, with
  both readers reset a second time and the flag false after it, and the fourth
  pull returns the first batch of the next epoch.
\<close>

theorem end_of_data_never_set:
  "streamed npy_argsort ex_plain [slot_pair] 3
     = Some ([Some (Some [[1], [2]], Some [[11], [12]]), Some (Some [[3]], Some [[13]]), None],
             False, 2, 2, [], [])
   \<and> streamed npy_argsort ex_plain [slot_pair] 4
     = Some ([Some (Some [[1], [2]], Some [[11], [12]]), Some (Some [[3]], Some [[13]]), None,
              Some (Some [[1], [2]], Some [[11], [12]])],
             False, 2, 2, [[3]], [[13]])"
proof -
  have "streamed npy_argsort ex_plain [slot_pair] 3
     = Some ([Some (Some [[1], [2]], Some [[11], [12]]), Some (Some [[3]], Some [[13]]), None],
             False, 2, 2, [], [])"
    by code_simp
  moreover have "streamed npy_argsort ex_plain [slot_pair] 4
     = Some ([Some (Some [[1], [2]], Some [[11], [12]]), Some (Some [[3]], Some [[13]]), None,
              Some (Some [[1], [2]], Some [[11], [12]])],
             False, 2, 2, [[3]], [[13]])"
    by code_simp
  ultimately show ?thesis by simp
qed

text \<open>
  C10.  Making the streaming iterator resets both readers before any pull.
  Whenever \<^verbatim>\<open>make_feeding_data\<close> with \<^verbatim>\<open>in_memory\<close> false returns an iterator, both
  readers have been reset once and stand at their first line, the cache is
  empty and the flag is false; when \<^verbatim>\<open>shuffle_every_epoch\<close> is set both sources
  have been rearranged by one and the same index list, and they are untouched
  otherwise.  After any number of pulls each reader has been reset once for the
  construction and once for every end of an epoch signalled since.  Without
  shuffling the construction always returns an iterator.
\<close>

theorem construction_resets_readers:
  "(make_feeding_data argsort self fs False = Some (Inr (Streaming it)) \<longrightarrow>
       resets (features_reader it) = Suc (resets (features_reader self))
     \<and> resets (labels_reader it) = Suc (resets (labels_reader self))
     \<and> cursor (features_reader it) = 0 \<and> cursor (labels_reader it) = 0
     \<and> features_buffer it = [] \<and> labels_buffer it = [] \<and> \<not> end_of_data it
     \<and> (truthy (shuffle_every_epoch self) \<longrightarrow>
           (\<exists>idx. gather (source (features_reader self)) idx = Inr (source (features_reader it))
                \<and> gather (source (labels_reader self)) idx = Inr (source (labels_reader it))))
     \<and> (\<not> truthy (shuffle_every_epoch self) \<longrightarrow>
           source (features_reader it) = source (features_reader self)
         \<and> source (labels_reader it) = source (labels_reader self))
     \<and> (pulls argsort k it = Inr (outs, it') \<longrightarrow>
           resets (features_reader it') = resets (features_reader self) + 1 + count_list outs StopIteration
         \<and> resets (labels_reader it') = resets (labels_reader self) + 1 + count_list outs StopIteration))
   \<and> (\<not> truthy (shuffle_every_epoch self) \<longrightarrow>
         (\<exists>it0. make_feeding_data argsort self fs False = Some (Inr (Streaming it0))))"
proof (intro conjI impI)
  assume m: "make_feeding_data argsort self fs False = Some (Inr (Streaming it))"
  then have i: "BigParallelDataIterator_init self fs = Inr it"
    by (auto simp: make_feeding_data_def split: sum.splits)
  note p = init_props[OF i]
  from p show "resets (features_reader it) = Suc (resets (features_reader self))"
    "resets (labels_reader it) = Suc (resets (labels_reader self))"
    "cursor (features_reader it) = 0" "cursor (labels_reader it) = 0"
    "features_buffer it = []" "labels_buffer it = []" "\<not> end_of_data it"
    by simp_all
  { assume "truthy (shuffle_every_epoch self)"
    from p(8)[OF this]
    show "\<exists>idx. gather (source (features_reader self)) idx = Inr (source (features_reader it))
                \<and> gather (source (labels_reader self)) idx = Inr (source (labels_reader it))" . }
  { assume "\<not> truthy (shuffle_every_epoch self)"
    from p(9)[OF this]
    show "source (features_reader it) = source (features_reader self)"
      "source (labels_reader it) = source (labels_reader self)" by simp_all }
  { assume "pulls argsort k it = Inr (outs, it')"
    from pulls_resets(1,2)[OF this] p(6,7)
    show "resets (features_reader it') = resets (features_reader self) + 1 + count_list outs StopIteration"
      "resets (labels_reader it') = resets (labels_reader self) + 1 + count_list outs StopIteration"
      by simp_all }
next
  assume "\<not> truthy (shuffle_every_epoch self)"
  from init_plain[OF this, of fs]
  show "\<exists>it0. make_feeding_data argsort self fs False = Some (Inr (Streaming it0))"
    by (auto simp: make_feeding_data_def)
qed

theorem construction_resets_readers_witness:
  "\<exists>it outs it'.
      make_feeding_data npy_argsort ex_shuffling [slot_pair] False = Some (Inr (Streaming it))
    \<and> truthy (shuffle_every_epoch ex_shuffling)
    \<and> pulls npy_argsort 5 it = Inr (outs, it')
    \<and> map batch_ids outs
        = [Some (Some [[1, 1, 1], [4, 4]], Some [[10], [40, 40]]), Some (Some [[2]], Some [[20, 20, 20]]),
           None,
           Some (Some [[1, 1, 1], [4, 4]], Some [[10], [40, 40]]), Some (Some [[2]], Some [[20, 20, 20]])]
    \<and> resets (features_reader it) = 1 \<and> cursor (features_reader it) = 0
    \<and> cursor (labels_reader it) = 0
    \<and> resets (features_reader it') = 2 \<and> resets (labels_reader it') = 2"
proof -
  have "streamed npy_argsort ex_shuffling [slot_pair] 5
          = Some ([Some (Some [[1, 1, 1], [4, 4]], Some [[10], [40, 40]]), Some (Some [[2]], Some [[20, 20, 20]]),
                   None,
                   Some (Some [[1, 1, 1], [4, 4]], Some [[10], [40, 40]]), Some (Some [[2]], Some [[20, 20, 20]])],
                  False, 2, 2, [], [])"
    by code_simp
  then obtain it outs it' where
    m: "make_feeding_data npy_argsort ex_shuffling [slot_pair] False = Some (Inr (Streaming it))"
    and p: "pulls npy_argsort 5 it = Inr (outs, it')"
    and o: "map batch_ids outs
        = [Some (Some [[1, 1, 1], [4, 4]], Some [[10], [40, 40]]), Some (Some [[2]], Some [[20, 20, 20]]),
           None,
           Some (Some [[1, 1, 1], [4, 4]], Some [[10], [40, 40]]), Some (Some [[2]], Some [[20, 20, 20]])]"
    by (rule streamed_Some)
  have t: "truthy (shuffle_every_epoch ex_shuffling)"
    by (simp add: ex_shuffling_def truthy_def)
  have c: "count_list outs StopIteration = count_list (map batch_ids outs) None"
    by (induction outs) (auto simp: batch_ids_def split: pulled.splits)
  have r0: "resets (features_reader ex_shuffling) = 0" "resets (labels_reader ex_shuffling) = 0"
    by (simp_all add: ex_shuffling_def)
  from construction_resets_readers[of npy_argsort ex_shuffling "[slot_pair]" it 5 outs it'] m p
  have "resets (features_reader it) = Suc (resets (features_reader ex_shuffling))"
    "cursor (features_reader it) = 0" "cursor (labels_reader it) = 0"
    "resets (features_reader it') = resets (features_reader ex_shuffling) + 1 + count_list outs StopIteration"
    "resets (labels_reader it') = resets (labels_reader ex_shuffling) + 1 + count_list outs StopIteration"
    by blast+
  then have "resets (features_reader it) = 1 \<and> cursor (features_reader it) = 0
    \<and> cursor (labels_reader it) = 0
    \<and> resets (features_reader it') = 2 \<and> resets (labels_reader it') = 2"
    by (simp add: c o r0)
  with m t p o have
    "make_feeding_data npy_argsort ex_shuffling [slot_pair] False = Some (Inr (Streaming it))
    \<and> truthy (shuffle_every_epoch ex_shuffling)
    \<and> pulls npy_argsort 5 it = Inr (outs, it')
    \<and> map batch_ids outs
        = [Some (Some [[1, 1, 1], [4, 4]], Some [[10], [40, 40]]), Some (Some [[2]], Some [[20, 20, 20]]),
           None,
           Some (Some [[1, 1, 1], [4, 4]], Some [[10], [40, 40]]), Some (Some [[2]], Some [[20, 20, 20]])]
    \<and> resets (features_reader it) = 1 \<and> cursor (features_reader it) = 0
    \<and> cursor (labels_reader it) = 0
    \<and> resets (features_reader it') = 2 \<and> resets (labels_reader it') = 2"
    by simp
  then show ?thesis by - ((rule exI)+, assumption)
qed
section \<open>Full batches\<close>






section \<open>Corpora of different lengths\<close>

lemma ahead_shorten: "ahead (shorten k r) = take k (ahead r)"
  by (simp add: ahead_def shorten_def drop_take)

lemma zip_take_min:
  "zip (take (min (length xs) (length ys)) xs) (take (min (length xs) (length ys)) ys) = zip xs ys"
  by (induction xs ys rule: list_induct2') simp_all

lemma small_buffers_via:
  assumes "drain_pairs (features_reader self) (labels_reader self) [] [] = (fr', lr', ss, tt)"
  shows "map_sum id snd (small_buffers argsort self)
           = (if bucketing self
              then (case do_bucketing argsort tt [ss] of
                      Inl e \<Rightarrow> Inl e
                    | Inr (tts, others) \<Rightarrow>
                        (case others of [] \<Rightarrow> Inl IndexError | sss # _ \<Rightarrow> Inr (sss, tts)))
              else Inr (ss, tt))"
  using assms
  by (auto simp: small_buffers_def split: sum.splits prod.splits list.splits)

lemma small_parallel_data_via:
  "map_option (map_sum id snd) (small_parallel_data argsort self fs)
     = (case map_sum id snd (small_buffers argsort self) of
          Inl e \<Rightarrow> Some (Inl e)
        | Inr (ss, tt) \<Rightarrow> pair_batch_loop (pack_pair self fs) ss tt (batch_size self) 0 [])"
  by (cases "small_buffers argsort self")
     (auto simp: small_parallel_data_def split: sum.splits prod.splits option.splits)

text \<open>
  C7.  Silent truncation to the shorter corpus.  Let \<open>k\<close> be the number of lines
  that both readers still have.  The loop of the in-memory reader appends the
  pairs of the first \<open>k\<close> lines that are sequences on both sides and nothing
  else, and the refill loop appends those of them that the cache target leaves
  room for; both loops return normally, their result is a value and never an
  exception.  And nothing the in-memory batcher returns tells the mismatch: the
  batches, the exceptions and the runs that do not end are the same as for the
  two readers cut after \<open>k\<close> lines.
\<close>

theorem silent_truncation:
  "(let k = min (length (ahead fr)) (length (ahead lr));
        kept = complete_pairs (zip (take k (ahead fr)) (take k (ahead lr)))
    in (\<exists>fr' lr'. drain_pairs fr lr sb tb = (fr', lr', sb @ map fst kept, tb @ map snd kept))
     \<and> (\<exists>fr' lr'. refill cnt csize fr lr fb lb
           = (fr', lr', fb @ map fst (take (nat (csize - cnt)) kept),
                        lb @ map snd (take (nat (csize - cnt)) kept))))
   \<and> (let k = min (length (ahead (features_reader self))) (length (ahead (labels_reader self)))
      in map_option (map_sum id snd) (small_parallel_data argsort self fs)
         = map_option (map_sum id snd)
             (small_parallel_data argsort
                (self\<lparr>features_reader := shorten k (features_reader self),
                      labels_reader := shorten k (labels_reader self)\<rparr>) fs))"
proof -
  have loops: "\<And>fr lr. (\<exists>fr' lr'. drain_pairs fr lr sb tb
        = (fr', lr',
           sb @ map fst (complete_pairs (zip (take (min (length (ahead fr)) (length (ahead lr))) (ahead fr))
                                             (take (min (length (ahead fr)) (length (ahead lr))) (ahead lr)))),
           tb @ map snd (complete_pairs (zip (take (min (length (ahead fr)) (length (ahead lr))) (ahead fr))
                                             (take (min (length (ahead fr)) (length (ahead lr))) (ahead lr))))))"
    unfolding zip_take_min using drain_pairs_char by blast
  have rf: "\<exists>fr' lr'. refill cnt csize fr lr fb lb
        = (fr', lr',
           fb @ map fst (take (nat (csize - cnt))
                  (complete_pairs (zip (take (min (length (ahead fr)) (length (ahead lr))) (ahead fr))
                                       (take (min (length (ahead fr)) (length (ahead lr))) (ahead lr))))),
           lb @ map snd (take (nat (csize - cnt))
                  (complete_pairs (zip (take (min (length (ahead fr)) (length (ahead lr))) (ahead fr))
                                       (take (min (length (ahead fr)) (length (ahead lr))) (ahead lr))))))"
    unfolding zip_take_min using refill_char[of cnt csize fr lr fb lb] by blast
  let ?f = "features_reader self" and ?l = "labels_reader self"
  let ?k = "min (length (ahead ?f)) (length (ahead ?l))"
  let ?short = "self\<lparr>features_reader := shorten ?k ?f, labels_reader := shorten ?k ?l\<rparr>"
  let ?kept = "complete_pairs (zip (ahead ?f) (ahead ?l))"
  from drain_pairs_char[of ?f ?l "[]" "[]"] obtain f1 l1 where
    d1: "drain_pairs ?f ?l [] [] = (f1, l1, map fst ?kept, map snd ?kept)" by auto
  have z: "zip (ahead (shorten ?k ?f)) (ahead (shorten ?k ?l)) = zip (ahead ?f) (ahead ?l)"
    by (simp only: ahead_shorten zip_take_min)
  from drain_pairs_char[of "shorten ?k ?f" "shorten ?k ?l" "[]" "[]"] obtain f2 l2 where
    d2: "drain_pairs (features_reader ?short) (labels_reader ?short) [] []
           = (f2, l2, map fst ?kept, map snd ?kept)"
    unfolding z by auto
  have b: "map_sum id snd (small_buffers argsort ?short) = map_sum id snd (small_buffers argsort self)"
    unfolding small_buffers_via[OF d1] small_buffers_via[OF d2] by simp
  have p: "pack_pair ?short fs = pack_pair self fs"
    by (intro ext) (simp add: pack_pair_def)
  have bs: "batch_size ?short = batch_size self" by simp
  have mem: "map_option (map_sum id snd) (small_parallel_data argsort self fs)
         = map_option (map_sum id snd) (small_parallel_data argsort ?short fs)"
    unfolding small_parallel_data_via b p bs by (rule refl)
  from loops[of fr lr] rf mem show ?thesis
    unfolding Let_def by blast
qed

end
